theory Spec2Isabelle
  imports Main "HOL-Library.AList" "HOL-Library.Char_ord" "HOL-Library.List_Lexorder"
begin

section \<open>Values and documents\<close>

text \<open>
  Python values the workflow carries in node configurations and in the run-time state:
  \<open>None\<close>, booleans, integers, floats, strings, lists and dictionaries with string keys.
  A string is a list of characters, each standing for the code point of the same number
  (code points up to 255); a float is carried as the text of its \<open>repr\<close>, which
  determines it (the code under study does no float arithmetic). A dictionary is an
  association list in insertion order; \<open>map_of\<close> is the lookup and \<open>AList.update\<close>
  the assignment \<open>d[k] = v\<close> (in place for a present key, appended for a new one).
\<close>

datatype pyval =
    PNone
  | PBool bool
  | PInt int
  | PFloat string
  | PStr string
  | PList "pyval list"
  | PDict "(string \<times> pyval) list"

text \<open>
  The exceptions the code under study raises or lets escape: \<open>KeyError(key)\<close>,
  \<open>ValueError(message)\<close> with a literal message, and the \<open>ValueError\<close> of the
  generated pipeline, whose message
  \<open>f"Variable '{var_name}' not found in state. Available: {list(state.keys())}"\<close>
  is kept as the name and the list of keys it interpolates.
\<close>

datatype error =
    KeyError string
  | ValueError string
  | VariableNotFound string "string list"

subsection \<open>The document schema (models/skill.py)\<close>

record parameter =
  param_name :: string
  param_type :: string
  required :: bool
  default_value :: "pyval option"

record node_output =
  output_name :: string
  output_type :: string

record node_config =
  function_name :: "string option"
  function_params :: "(string \<times> pyval) list option"
  model :: "string option"
  prompt_template :: "string option"
  temperature :: "string option"
  component_type :: "string option"
  template :: "(string \<times> pyval) list option"

text \<open>The field validator of \<open>NodeModel.type\<close> admits exactly these four kinds.\<close>

datatype node_kind = function_call | llm_call | visualizer | user_approval

record node =
  node_id :: string
  node_type :: node_kind
  config :: node_config
  outputs :: "node_output list option"

record edge =
  source_node :: string
  target_node :: string

record workflow =
  nodes :: "node list"
  edges :: "edge list"

text \<open>
  \<open>SkillYAML.skill\<close>: the validator reads \<open>inputs.parameters\<close> and \<open>workflow\<close> only;
  metadata and triggers are left out.
\<close>

record skill =
  parameters :: "parameter list"
  workflow :: workflow

section \<open>The Python library\<close>

text \<open>
  Models of what the code calls in the standard library, after its documentation: the
  regular expression of the placeholders, \<open>split\<close>, \<open>join\<close> and \<open>replace\<close> on strings,
  \<open>json.dumps\<close>, \<open>repr\<close> and \<open>str\<close>, and the scanner of string literals of
  \<open>json.loads\<close>.
\<close>

subsection \<open>Placeholders: the pattern \<open>\{\{(\w+)\}\}\<close>\<close>

text \<open>
  \<open>\w\<close> on a Python \<open>str\<close>: ASCII letters, digits and the underscore, and the
  alphanumeric code points of the range 128 to 255.
\<close>

definition is_word_char :: "char \<Rightarrow> bool" where
  "is_word_char c =
     (let n = (of_char c :: nat) in
        (48 \<le> n \<and> n \<le> 57) \<or> (65 \<le> n \<and> n \<le> 90) \<or> n = 95 \<or> (97 \<le> n \<and> n \<le> 122)
        \<or> n = 170 \<or> n = 178 \<or> n = 179 \<or> n = 181 \<or> n = 185 \<or> n = 186
        \<or> (188 \<le> n \<and> n \<le> 190) \<or> (192 \<le> n \<and> n \<le> 214) \<or> (216 \<le> n \<and> n \<le> 246)
        \<or> (248 \<le> n \<and> n \<le> 255))"

text \<open>
  A match of the pattern at the start of a string: the captured name and the text after
  the match. \<open>\w+\<close> is greedy and a closing brace is no word character, so the name is
  the longest run of word characters, and no shorter run can be followed by \<open>}}\<close>.
\<close>

definition match_token :: "string \<Rightarrow> (string \<times> string) option" where
  "match_token s =
     (if take 2 s = ''{{'' then
        (let name = takeWhile is_word_char (drop 2 s);
             rest = dropWhile is_word_char (drop 2 s)
         in if name \<noteq> [] \<and> take 2 rest = ''}}'' then Some (name, drop 2 rest) else None)
      else None)"

lemma match_token_shorter:
  "match_token s = Some (name, rest) \<Longrightarrow> length rest < length s"
proof -
  assume "match_token s = Some (name, rest)"
  then have "rest = drop 2 (dropWhile is_word_char (drop 2 s))" and "take 2 s = ''{{''"
    by (auto simp: match_token_def Let_def split: if_splits)
  moreover have "length (dropWhile is_word_char (drop 2 s)) \<le> length (drop 2 s)"
    by (rule length_dropWhile_le)
  ultimately show ?thesis by (cases s) auto
qed

text \<open>\<open>re.findall(pattern, s)\<close>: the names of the matches, scanning from the left.\<close>

function findall :: "string \<Rightarrow> string list" where
  "findall [] = []"
| "findall (c # cs) =
     (case match_token (c # cs) of
        Some (name, rest) \<Rightarrow> name # findall rest
      | None \<Rightarrow> findall cs)"
  by pat_completeness auto

termination
  by (relation "measure length") (auto dest: match_token_shorter)

text \<open>
  \<open>re.sub(pattern, replacer, s)\<close>: each match is replaced by what \<open>replacer\<close> returns
  for its name, and the first exception \<open>replacer\<close> raises ends the call.
\<close>

function sub :: "(string \<Rightarrow> error + string) \<Rightarrow> string \<Rightarrow> error + string" where
  "sub replacer [] = Inr []"
| "sub replacer (c # cs) =
     (case match_token (c # cs) of
        Some (name, rest) \<Rightarrow>
          (case replacer name of
             Inl e \<Rightarrow> Inl e
           | Inr text \<Rightarrow>
               (case sub replacer rest of Inl e \<Rightarrow> Inl e | Inr out \<Rightarrow> Inr (text @ out)))
      | None \<Rightarrow>
          (case sub replacer cs of Inl e \<Rightarrow> Inl e | Inr out \<Rightarrow> Inr (c # out)))"
  by pat_completeness auto

termination
  by (relation "measure (\<lambda>(replacer, s). length s)") (auto dest: match_token_shorter)

text \<open>\<open>re.fullmatch(pattern, s)\<close>: the whole string is one placeholder.\<close>

definition fullmatch :: "string \<Rightarrow> string option" where
  "fullmatch s = (case match_token s of Some (name, []) \<Rightarrow> Some name | _ \<Rightarrow> None)"

subsection \<open>String operations\<close>

text \<open>\<open>s.split(sep)\<close> for a one-character separator, and \<open>sep.join(parts)\<close>.\<close>

fun split :: "char \<Rightarrow> string \<Rightarrow> string list" where
  "split sep [] = [[]]"
| "split sep (c # cs) =
     (if c = sep then [] # split sep cs
      else (case split sep cs of [] \<Rightarrow> [[c]] | p # ps \<Rightarrow> (c # p) # ps))"

fun join :: "string \<Rightarrow> string list \<Rightarrow> string" where
  "join sep [] = []"
| "join sep [p] = p"
| "join sep (p # q # ps) = p @ sep @ join sep (q # ps)"

text \<open>
  \<open>s.replace(old, new)\<close> for a one-character \<open>old\<close>, which is all the escaping uses.
\<close>

definition replace :: "char \<Rightarrow> string \<Rightarrow> string \<Rightarrow> string" where
  "replace old new s = concat (map (\<lambda>c. if c = old then new else [c]) s)"

subsection \<open>The text forms of a value\<close>

text \<open>
  \<open>json.dumps\<close> with the default separators, \<open>repr\<close> and \<open>str\<close>. The first
  argument of \<open>json_dumps\<close> is the option \<open>ensure_ascii\<close>, which is \<open>True\<close> by
  default and then has every character outside the printable ASCII range written as an
  escape \<open>\uXXXX\<close>. The characters that need care are named.
\<close>

definition backslash :: char where "backslash = CHR 0x5C"

definition dquote :: char where "dquote = CHR 0x22"

definition squote :: char where "squote = CHR 0x27"

definition newline :: char where "newline = CHR 0x0A"

definition creturn :: char where "creturn = CHR 0x0D"

definition tab :: char where "tab = CHR 0x09"

function nat_text :: "nat \<Rightarrow> string" where
  "nat_text n =
     (if n < 10 then [char_of (48 + n)]
      else nat_text (n div 10) @ [char_of (48 + n mod 10)])"
  by pat_completeness auto

termination
  by (relation "measure id") auto

declare nat_text.simps [simp del]

definition int_text :: "int \<Rightarrow> string" where
  "int_text i = (if i < 0 then CHR ''-'' # nat_text (nat (- i)) else nat_text (nat i))"

definition hex_digit :: "nat \<Rightarrow> char" where
  "hex_digit n = (if n < 10 then char_of (48 + n) else char_of (87 + n))"

definition hex2 :: "char \<Rightarrow> string" where
  "hex2 c = [hex_digit (of_char c div 16), hex_digit (of_char c mod 16)]"

definition json_escape_char :: "bool \<Rightarrow> char \<Rightarrow> string" where
  "json_escape_char ensure_ascii c =
     (if c = dquote then [backslash, dquote]
      else if c = backslash then [backslash, backslash]
      else if c = newline then [backslash, CHR ''n'']
      else if c = creturn then [backslash, CHR ''r'']
      else if c = tab then [backslash, CHR ''t'']
      else if c = CHR 0x08 then [backslash, CHR ''b'']
      else if c = CHR 0x0C then [backslash, CHR ''f'']
      else if (of_char c :: nat) < 32 \<or> (ensure_ascii \<and> 126 < (of_char c :: nat)) then
        [backslash, CHR ''u'', CHR ''0'', CHR ''0''] @ hex2 c
      else [c])"

definition json_string :: "bool \<Rightarrow> string \<Rightarrow> string" where
  "json_string ensure_ascii s =
     [dquote] @ concat (map (json_escape_char ensure_ascii) s) @ [dquote]"

definition json_float :: "string \<Rightarrow> string" where
  "json_float r =
     (if r = ''nan'' then ''NaN''
      else if r = ''inf'' then ''Infinity''
      else if r = ''-inf'' then ''-Infinity''
      else r)"

fun json_dumps :: "bool \<Rightarrow> pyval \<Rightarrow> string"
  and json_pairs :: "bool \<Rightarrow> (string \<times> pyval) list \<Rightarrow> string list"
  and json_items :: "bool \<Rightarrow> pyval list \<Rightarrow> string list" where
  "json_dumps ensure_ascii (PDict kvs) = ''{'' @ join '', '' (json_pairs ensure_ascii kvs) @ ''}''"
| "json_dumps ensure_ascii (PList items) =
     ''['' @ join '', '' (json_items ensure_ascii items) @ '']''"
| "json_dumps ensure_ascii (PStr s) = json_string ensure_ascii s"
| "json_dumps ensure_ascii PNone = ''null''"
| "json_dumps ensure_ascii (PBool b) = (if b then ''true'' else ''false'')"
| "json_dumps ensure_ascii (PInt i) = int_text i"
| "json_dumps ensure_ascii (PFloat r) = json_float r"
| "json_pairs ensure_ascii [] = []"
| "json_pairs ensure_ascii ((k, v) # kvs) =
     (json_string ensure_ascii k @ '': '' @ json_dumps ensure_ascii v)
       # json_pairs ensure_ascii kvs"
| "json_items ensure_ascii [] = []"
| "json_items ensure_ascii (item # items) =
     json_dumps ensure_ascii item # json_items ensure_ascii items"

text \<open>
  \<open>repr\<close> of a string: single quotes, unless the string holds a single quote and no
  double quote; the code points without a printable form are written \<open>\xNN\<close>.
\<close>

definition printable :: "char \<Rightarrow> bool" where
  "printable c =
     (let n = (of_char c :: nat) in 32 \<le> n \<and> n < 127 \<or> 161 \<le> n \<and> n \<noteq> 173)"

definition repr_char :: "char \<Rightarrow> char \<Rightarrow> string" where
  "repr_char q c =
     (if c = q \<or> c = backslash then [backslash, c]
      else if c = tab then [backslash, CHR ''t'']
      else if c = newline then [backslash, CHR ''n'']
      else if c = creturn then [backslash, CHR ''r'']
      else if printable c then [c]
      else [backslash, CHR ''x''] @ hex2 c)"

definition repr_string :: "string \<Rightarrow> string" where
  "repr_string s =
     (let q = (if squote \<in> set s \<and> dquote \<notin> set s then dquote else squote)
      in [q] @ concat (map (repr_char q) s) @ [q])"

fun py_repr :: "pyval \<Rightarrow> string"
  and repr_pairs :: "(string \<times> pyval) list \<Rightarrow> string list"
  and repr_items :: "pyval list \<Rightarrow> string list" where
  "py_repr (PDict kvs) = ''{'' @ join '', '' (repr_pairs kvs) @ ''}''"
| "py_repr (PList items) = ''['' @ join '', '' (repr_items items) @ '']''"
| "py_repr (PStr s) = repr_string s"
| "py_repr PNone = ''None''"
| "py_repr (PBool b) = (if b then ''True'' else ''False'')"
| "py_repr (PInt i) = int_text i"
| "py_repr (PFloat r) = r"
| "repr_pairs [] = []"
| "repr_pairs ((k, v) # kvs) = (repr_string k @ '': '' @ py_repr v) # repr_pairs kvs"
| "repr_items [] = []"
| "repr_items (item # items) = py_repr item # repr_items items"

definition py_str :: "pyval \<Rightarrow> string" where
  "py_str v = (case v of PStr s \<Rightarrow> s | _ \<Rightarrow> py_repr v)"

subsection \<open>Reading a document back (\<open>json.loads\<close>)\<close>

text \<open>
  The decoder behind \<open>json.loads\<close>, with its defaults (strict mode, the scanner and the
  string scanner of the C accelerator, which decode as the Python ones do). The kinds of
  \<open>JSONDecodeError\<close> are told apart by their message. Two outcomes mark the border of
  this model and are no errors of Python: \<open>OutsideLatin1\<close> for an escape \<open>\uXXXX\<close> of a
  code point above 255, which the strings of this model do not hold, and \<open>NestingTooDeep\<close>
  for a text longer than the bound the reader is started with.
\<close>

datatype decode_error =
    Unterminated
  | InvalidControlCharacter
  | InvalidEscape
  | InvalidUnicodeEscape
  | ExpectingValue
  | ExpectingPropertyName
  | ExpectingColon
  | ExpectingComma
  | ExtraData
  | OutsideLatin1
  | NestingTooDeep

definition unescape :: "char \<Rightarrow> char option" where
  "unescape e =
     (if e = dquote then Some dquote
      else if e = backslash then Some backslash
      else if e = CHR ''/'' then Some CHR ''/''
      else if e = CHR ''b'' then Some (CHR 0x08)
      else if e = CHR ''f'' then Some (CHR 0x0C)
      else if e = CHR ''n'' then Some newline
      else if e = CHR ''r'' then Some creturn
      else if e = CHR ''t'' then Some tab
      else None)"

text \<open>
  The four hexadecimal digits of an escape \<open>\uXXXX\<close>, in either case, give a code point;
  the scanner wants one more character after them.
\<close>

definition hex_value :: "char \<Rightarrow> nat option" where
  "hex_value c =
     (let n = (of_char c :: nat) in
        if 48 \<le> n \<and> n \<le> 57 then Some (n - 48)
        else if 97 \<le> n \<and> n \<le> 102 then Some (n - 87)
        else if 65 \<le> n \<and> n \<le> 70 then Some (n - 55)
        else None)"

fun hex_number :: "string \<Rightarrow> nat \<Rightarrow> nat option" where
  "hex_number [] n = Some n"
| "hex_number (c # cs) n =
     (case hex_value c of None \<Rightarrow> None | Some d \<Rightarrow> hex_number cs (16 * n + d))"

definition decode_uXXXX :: "string \<Rightarrow> decode_error + char" where
  "decode_uXXXX s =
     (if length s \<le> 4 then Inl InvalidUnicodeEscape
      else (case hex_number (take 4 s) 0 of
              None \<Rightarrow> Inl InvalidUnicodeEscape
            | Some n \<Rightarrow> if n < 256 then Inr (char_of n) else Inl OutsideLatin1))"

text \<open>
  \<open>scanstring\<close>: from the text after the opening quote, the string and the text after the
  closing quote. A control character in the literal is an error.
\<close>

fun scanstring :: "string \<Rightarrow> decode_error + (string \<times> string)" where
  "scanstring [] = Inl Unterminated"
| "scanstring (c # cs) =
     (if c = dquote then Inr ([], cs)
      else if c = backslash then
        (case cs of
           [] \<Rightarrow> Inl Unterminated
         | e # rest \<Rightarrow>
             if e = CHR ''u'' then
               (case decode_uXXXX rest of
                  Inl x \<Rightarrow> Inl x
                | Inr d \<Rightarrow>
                    (case scanstring (drop 4 rest) of
                       Inl x \<Rightarrow> Inl x
                     | Inr (s, after) \<Rightarrow> Inr (d # s, after)))
             else
               (case unescape e of
                  None \<Rightarrow> Inl InvalidEscape
                | Some d \<Rightarrow>
                    (case scanstring rest of
                       Inl x \<Rightarrow> Inl x
                     | Inr (s, after) \<Rightarrow> Inr (d # s, after))))
      else if (of_char c :: nat) < 32 then Inl InvalidControlCharacter
      else (case scanstring cs of
              Inl x \<Rightarrow> Inl x
            | Inr (s, after) \<Rightarrow> Inr (c # s, after)))"

text \<open>White space between the parts of a document, and the pattern of a number,
  \<open>(-?(?:0|[1-9]\d*))(\.\d+)?([eE][-+]?\d+)?\<close>: its three groups and the text after
  the match.\<close>

definition is_ws :: "char \<Rightarrow> bool" where
  "is_ws c = (c = CHR '' '' \<or> c = tab \<or> c = newline \<or> c = creturn)"

definition skip_ws :: "string \<Rightarrow> string" where
  "skip_ws s = dropWhile is_ws s"

definition is_digit :: "char \<Rightarrow> bool" where
  "is_digit c = (48 \<le> (of_char c :: nat) \<and> (of_char c :: nat) \<le> 57)"

definition match_frac :: "string \<Rightarrow> string \<times> string" where
  "match_frac s =
     (case s of
        [] \<Rightarrow> ([], s)
      | c # cs \<Rightarrow>
          if c = CHR ''.'' \<and> takeWhile is_digit cs \<noteq> []
          then (c # takeWhile is_digit cs, dropWhile is_digit cs)
          else ([], s))"

definition match_exp :: "string \<Rightarrow> string \<times> string" where
  "match_exp s =
     (case s of
        [] \<Rightarrow> ([], s)
      | c # cs \<Rightarrow>
          if c = CHR ''e'' \<or> c = CHR ''E'' then
            (let sign = (if take 1 cs = ''+'' \<or> take 1 cs = ''-'' then take 1 cs else []);
                 ds = drop (length sign) cs
             in if takeWhile is_digit ds \<noteq> []
                then (c # sign @ takeWhile is_digit ds, dropWhile is_digit ds)
                else ([], s))
          else ([], s))"

definition match_number :: "string \<Rightarrow> (string \<times> string \<times> string \<times> string) option" where
  "match_number s =
     (let sign = (if take 1 s = ''-'' then ''-'' else []);
          ds = drop (length sign) s
      in case ds of
           [] \<Rightarrow> None
         | d # later \<Rightarrow>
             if is_digit d then
               (let integer = (if d = CHR ''0'' then sign @ [d]
                               else sign @ d # takeWhile is_digit later);
                    (frac, s2) = match_frac (drop (length integer) s);
                    (exp, s3) = match_exp s2
                in Some (integer, frac, exp, s3))
             else None)"

text \<open>\<open>int(text)\<close> of an optional minus sign and decimal digits.\<close>

definition digits_value :: "string \<Rightarrow> nat" where
  "digits_value ds = foldl (\<lambda>n c. 10 * n + ((of_char c :: nat) - 48)) 0 ds"

definition parse_int :: "string \<Rightarrow> int" where
  "parse_int s =
     (if take 1 s = ''-'' then - int (digits_value (drop 1 s)) else int (digits_value s))"

text \<open>
  \<open>dict(pairs)\<close>: a key that comes again keeps its place and takes the later value.
\<close>

definition dict :: "(string \<times> pyval) list \<Rightarrow> (string \<times> pyval) list" where
  "dict pairs = fold (\<lambda>(k, v) d. AList.update k v d) pairs []"

text \<open>
  The scanner \<open>scan_once\<close> reads one value at the start of the text and returns it with
  the text after it; it reads an object with \<open>JSONObject\<close>, from the text after the
  opening quote of a key and the pairs read so far, and an array with \<open>JSONArray\<close>, from
  the text of the next element and the elements read so far. A number with a fraction or
  an exponent is read as the float it denotes, which is carried by that text (the text
  \<open>json.dumps\<close> writes for a float is its \<open>repr\<close>). The first argument bounds the
  length of the text still to read, which decreases with every value and every element;
  \<open>json_loads\<close> starts with the length of the whole text.
\<close>

fun scan_once :: "nat \<Rightarrow> string \<Rightarrow> decode_error + (pyval \<times> string)"
  and JSONObject ::
    "nat \<Rightarrow> string \<Rightarrow> (string \<times> pyval) list \<Rightarrow> decode_error + (pyval \<times> string)"
  and JSONArray :: "nat \<Rightarrow> string \<Rightarrow> pyval list \<Rightarrow> decode_error + (pyval \<times> string)" where
  "scan_once 0 s = (if s = [] then Inl ExpectingValue else Inl NestingTooDeep)"
| "scan_once (Suc n) s =
     (case s of
        [] \<Rightarrow> Inl ExpectingValue
      | nextchar # after \<Rightarrow>
          if nextchar = dquote then
            (case scanstring after of
               Inl x \<Rightarrow> Inl x
             | Inr (text, rest) \<Rightarrow> Inr (PStr text, rest))
          else if nextchar = CHR ''{'' then
            (if take 1 after = [dquote] then JSONObject n (drop 1 after) []
             else if take 1 (skip_ws after) = ''}'' then Inr (PDict [], drop 1 (skip_ws after))
             else if take 1 (skip_ws after) = [dquote]
             then JSONObject n (drop 1 (skip_ws after)) []
             else Inl ExpectingPropertyName)
          else if nextchar = CHR ''['' then
            (if take 1 (skip_ws after) = '']'' then Inr (PList [], drop 1 (skip_ws after))
             else JSONArray n (skip_ws after) [])
          else if take 4 s = ''null'' then Inr (PNone, drop 4 s)
          else if take 4 s = ''true'' then Inr (PBool True, drop 4 s)
          else if take 5 s = ''false'' then Inr (PBool False, drop 5 s)
          else
            (case match_number s of
               Some (integer, frac, exp, rest) \<Rightarrow>
                 if frac \<noteq> [] \<or> exp \<noteq> [] then Inr (PFloat (integer @ frac @ exp), rest)
                 else Inr (PInt (parse_int integer), rest)
             | None \<Rightarrow>
                 if take 3 s = ''NaN'' then Inr (PFloat ''nan'', drop 3 s)
                 else if take 8 s = ''Infinity'' then Inr (PFloat ''inf'', drop 8 s)
                 else if take 9 s = ''-Infinity'' then Inr (PFloat ''-inf'', drop 9 s)
                 else Inl ExpectingValue))"
| "JSONObject 0 s pairs =
     (case scanstring s of Inl x \<Rightarrow> Inl x | Inr (key, s1) \<Rightarrow> Inl NestingTooDeep)"
| "JSONObject (Suc n) s pairs =
     (case scanstring s of
        Inl x \<Rightarrow> Inl x
      | Inr (key, s1) \<Rightarrow>
          if take 1 (skip_ws s1) \<noteq> '':'' then Inl ExpectingColon
          else
            (case scan_once n (skip_ws (drop 1 (skip_ws s1))) of
               Inl x \<Rightarrow> Inl x
             | Inr (v, s2) \<Rightarrow>
                 if take 1 (skip_ws s2) = ''}''
                 then Inr (PDict (dict (pairs @ [(key, v)])), drop 1 (skip_ws s2))
                 else if take 1 (skip_ws s2) \<noteq> '','' then Inl ExpectingComma
                 else if take 1 (skip_ws (drop 1 (skip_ws s2))) \<noteq> [dquote]
                 then Inl ExpectingPropertyName
                 else JSONObject n (drop 1 (skip_ws (drop 1 (skip_ws s2))))
                        (pairs @ [(key, v)])))"
| "JSONArray 0 s vs = (if s = [] then Inl ExpectingValue else Inl NestingTooDeep)"
| "JSONArray (Suc n) s vs =
     (case scan_once (Suc n) s of
        Inl x \<Rightarrow> Inl x
      | Inr (v, s1) \<Rightarrow>
          if take 1 (skip_ws s1) = '']''
          then Inr (PList (vs @ [v]), drop 1 (skip_ws s1))
          else if take 1 (skip_ws s1) \<noteq> '','' then Inl ExpectingComma
          else JSONArray n (skip_ws (drop 1 (skip_ws s1))) (vs @ [v]))"

definition json_loads :: "string \<Rightarrow> decode_error + pyval" where
  "json_loads s =
     (case scan_once (length s) (skip_ws s) of
        Inl x \<Rightarrow> Inl x
      | Inr (obj, rest) \<Rightarrow> if skip_ws rest = [] then Inr obj else Inl ExtraData)"

section \<open>The validator (validator.py)\<close>

subsection \<open>Topological ordering (\<open>_get_topological_order\<close>)\<close>

text \<open>
  \<open>{node.id: v for node in nodes}\<close>: a dictionary comprehension assigns key after key,
  so a repeated id keeps its first position.
\<close>

definition dict_from_ids :: "'v \<Rightarrow> node list \<Rightarrow> (string \<times> 'v) list" where
  "dict_from_ids v ns = fold (\<lambda>n d. AList.update (node_id n) v d) ns []"

text \<open>
  The loop over the edges. \<open>adj_list[edge.source_node]\<close> and
  \<open>in_degree[edge.target_node]\<close> raise \<open>KeyError\<close> on an id that is no node's.
\<close>

fun add_edges ::
  "edge list \<Rightarrow> (string \<times> string list) list \<Rightarrow> (string \<times> int) list
    \<Rightarrow> error + ((string \<times> string list) list \<times> (string \<times> int) list)" where
  "add_edges [] adj_list in_degree = Inr (adj_list, in_degree)"
| "add_edges (e # es) adj_list in_degree =
     (case map_of adj_list (source_node e) of
        None \<Rightarrow> Inl (KeyError (source_node e))
      | Some ts \<Rightarrow>
          (case map_of in_degree (target_node e) of
             None \<Rightarrow> Inl (KeyError (target_node e))
           | Some d \<Rightarrow>
               add_edges es
                 (AList.update (source_node e) (ts @ [target_node e]) adj_list)
                 (AList.update (target_node e) (d + 1) in_degree)))"

text \<open>
  The inner loop \<open>for neighbor in adj_list[node_id]\<close>: decrement, and append to the
  queue when the count reaches zero.
\<close>

fun relax ::
  "string list \<Rightarrow> (string \<times> int) list \<Rightarrow> string list
    \<Rightarrow> error + ((string \<times> int) list \<times> string list)" where
  "relax [] in_degree queue = Inr (in_degree, queue)"
| "relax (neighbor # rest) in_degree queue =
     (case map_of in_degree neighbor of
        None \<Rightarrow> Inl (KeyError neighbor)
      | Some d \<Rightarrow>
          relax rest (AList.update neighbor (d - 1) in_degree)
            (if d - 1 = 0 then queue @ [neighbor] else queue))"

text \<open>The number of keys whose count is positive: what is left to enter the queue.\<close>

definition positive :: "(string \<times> int) list \<Rightarrow> nat" where
  "positive in_degree = length (filter (\<lambda>kd. 0 < snd kd) in_degree)"

lemma positive_update:
  "map_of al k = Some d \<Longrightarrow>
   positive (AList.update k d' al) + (if 0 < d then 1 else 0)
     = positive al + (if 0 < d' then 1 else 0)"
  by (induction al) (auto simp: positive_def)

lemma relax_measure:
  "relax nbs in_degree queue = Inr (in_degree', queue') \<Longrightarrow>
   length queue' + positive in_degree' = length queue + positive in_degree"
proof (induction nbs arbitrary: in_degree queue)
  case Nil
  then show ?case by simp
next
  case (Cons nb nbs)
  from Cons.prems obtain d where d: "map_of in_degree nb = Some d"
    by (auto split: option.splits)
  let ?deg = "AList.update nb (d - 1) in_degree"
  let ?q = "if d - 1 = 0 then queue @ [nb] else queue"
  from Cons.prems d have "relax nbs ?deg ?q = Inr (in_degree', queue')"
    by simp
  from Cons.IH [OF this]
  have "length queue' + positive in_degree' = length ?q + positive ?deg" .
  moreover have "length ?q + positive ?deg = length queue + positive in_degree"
  proof (cases "d = 1")
    case True
    with positive_update [OF d, of 0] show ?thesis by simp
  next
    case False
    with positive_update [OF d, of "d - 1"] show ?thesis by (cases "0 < d") auto
  qed
  ultimately show ?case by simp
qed

text \<open>
  The \<open>while queue:\<close> loop: sort the queue, pop its first element, append it to the
  result, relax its successors.
\<close>

function kahn_loop ::
  "(string \<times> string list) list \<Rightarrow> (string \<times> int) list \<Rightarrow> string list \<Rightarrow> string list
    \<Rightarrow> error + string list" where
  "kahn_loop adj_list in_degree queue result =
     (case sort queue of
        [] \<Rightarrow> Inr result
      | current # queue' \<Rightarrow>
          (case map_of adj_list current of
             None \<Rightarrow> Inl (KeyError current)
           | Some neighbors \<Rightarrow>
               (case relax neighbors in_degree queue' of
                  Inl e \<Rightarrow> Inl e
                | Inr (in_degree', queue'') \<Rightarrow>
                    kahn_loop adj_list in_degree' queue'' (result @ [current]))))"
  by pat_completeness auto

termination
proof (relation "measure (\<lambda>(adj_list, in_degree, queue, result).
                            length queue + positive in_degree)", goal_cases)
  case 1
  show ?case by simp
next
  case (2 adj_list in_degree queue result current queue' neighbors x in_degree' queue'')
  from 2(1) have "length queue = Suc (length queue')"
    by (metis length_Cons length_sort)
  moreover from 2(3,4) relax_measure [of neighbors in_degree queue' in_degree' queue'']
  have "length queue'' + positive in_degree' = length queue' + positive in_degree"
    by simp
  ultimately show ?case by simp
qed

declare kahn_loop.simps [simp del]

text \<open>
  \<open>_get_topological_order\<close>: the two dictionaries, the queue of the ids whose count is
  zero, in the order of the dictionary, the loop, and the comparison of the two lengths.
\<close>

definition cycle_message :: string where
  "cycle_message = ''Cycle detected in workflow graph''"

definition get_topological_order :: "workflow \<Rightarrow> error + string list" where
  "get_topological_order w =
     (case add_edges (edges w) (dict_from_ids [] (nodes w)) (dict_from_ids 0 (nodes w)) of
        Inl e \<Rightarrow> Inl e
      | Inr (adj_list, in_degree) \<Rightarrow>
          (case kahn_loop adj_list in_degree
                  (map fst (filter (\<lambda>kd. snd kd = 0) in_degree)) [] of
             Inl e \<Rightarrow> Inl e
           | Inr result \<Rightarrow>
               if length result \<noteq> length (nodes w) then Inl (ValueError cycle_message)
               else Inr result))"

subsection \<open>Output names and scopes\<close>

text \<open>\<open>_infer_output_name\<close> and its table.\<close>

definition transforms :: "(string \<times> string) list" where
  "transforms =
     [(''enrich'', ''enriched''),
      (''summarize'', ''summarized''),
      (''process'', ''processed''),
      (''transform'', ''transformed'')]"

definition infer_output_name :: "string \<Rightarrow> string" where
  "infer_output_name nid =
     (let parts = split CHR ''_'' nid in
        if length parts > 1 then
          (case map_of transforms (hd parts) of
             Some t \<Rightarrow> t @ ''_'' @ join ''_'' (tl parts)
           | None \<Rightarrow> nid)
        else nid)"

text \<open>\<open>self.nodes = {node.id: node for node in self.workflow.nodes}\<close>\<close>

definition nodes_dict :: "workflow \<Rightarrow> (string \<times> node) list" where
  "nodes_dict w = fold (\<lambda>n d. AList.update (node_id n) n d) (nodes w) []"

text \<open>
  The names a node adds to the visible set: its declared outputs, or, when it declares
  none (\<open>None\<close> or the empty list), the name inferred from its id.
\<close>

definition output_names :: "string \<Rightarrow> node \<Rightarrow> string set" where
  "output_names nid n =
     (case outputs n of
        Some (out # outs) \<Rightarrow> set (map output_name (out # outs))
      | _ \<Rightarrow> {infer_output_name nid})"

text \<open>
  The loop of \<open>_build_outputs_map\<close> over the order; \<open>self.nodes[node_id]\<close> raises
  \<open>KeyError\<close> on an id that is no node's.
\<close>

fun sweep ::
  "(string \<times> node) list \<Rightarrow> string list \<Rightarrow> string set \<Rightarrow> (string \<rightharpoonup> string set)
    \<Rightarrow> error + (string \<rightharpoonup> string set)" where
  "sweep nd [] available available_outputs = Inr available_outputs"
| "sweep nd (nid # rest) available available_outputs =
     (case map_of nd nid of
        None \<Rightarrow> Inl (KeyError nid)
      | Some n \<Rightarrow>
          sweep nd rest (available \<union> output_names nid n) (available_outputs(nid \<mapsto> available)))"

text \<open>
  \<open>_build_outputs_map\<close> updates \<open>self.available_outputs\<close>; the bare \<open>except\<close> around
  the ordering returns with the map as it was.
\<close>

definition build_outputs_map ::
  "skill \<Rightarrow> (string \<rightharpoonup> string set) \<Rightarrow> error + (string \<rightharpoonup> string set)" where
  "build_outputs_map s available_outputs =
     (case get_topological_order (workflow s) of
        Inl e \<Rightarrow> Inr available_outputs
      | Inr topo_order \<Rightarrow>
          sweep (nodes_dict (workflow s)) topo_order
            (set (map param_name (parameters s))) available_outputs)"

subsection \<open>Variable references\<close>

text \<open>\<open>node.config.model_dump()\<close>: the fields in declaration order.\<close>

definition opt :: "('a \<Rightarrow> pyval) \<Rightarrow> 'a option \<Rightarrow> pyval" where
  "opt f x = (case x of None \<Rightarrow> PNone | Some v \<Rightarrow> f v)"

definition model_dump :: "node_config \<Rightarrow> (string \<times> pyval) list" where
  "model_dump c =
     [(''function_name'', opt PStr (function_name c)),
      (''function_params'', opt PDict (function_params c)),
      (''model'', opt PStr (model c)),
      (''prompt_template'', opt PStr (prompt_template c)),
      (''temperature'', opt PFloat (temperature c)),
      (''component_type'', opt PStr (component_type c)),
      (''template'', opt PDict (template c))]"

text \<open>
  \<open>_search_dict_for_variables(obj, pattern, variables)\<close>, with the one pattern it is
  called with; the set \<open>variables\<close> it updates is passed and returned.
\<close>

fun search_dict_for_variables :: "pyval \<Rightarrow> string set \<Rightarrow> string set"
  and search_values :: "(string \<times> pyval) list \<Rightarrow> string set \<Rightarrow> string set"
  and search_items :: "pyval list \<Rightarrow> string set \<Rightarrow> string set" where
  "search_dict_for_variables (PDict kvs) variables = search_values kvs variables"
| "search_dict_for_variables (PList items) variables = search_items items variables"
| "search_dict_for_variables (PStr s) variables = variables \<union> set (findall s)"
| "search_dict_for_variables PNone variables = variables"
| "search_dict_for_variables (PBool b) variables = variables"
| "search_dict_for_variables (PInt i) variables = variables"
| "search_dict_for_variables (PFloat f) variables = variables"
| "search_values [] variables = variables"
| "search_values ((k, v) # kvs) variables =
     search_values kvs (search_dict_for_variables v variables)"
| "search_items [] variables = variables"
| "search_items (item # items) variables =
     search_items items (search_dict_for_variables item variables)"

definition extract_variables :: "node \<Rightarrow> string set" where
  "extract_variables n = search_dict_for_variables (PDict (model_dump (config n))) {}"

text \<open>
  The entries of the report. The source builds each as an f-string; an entry is kept here
  as the constructor of its template, with the values the template interpolates, and
  \<open>render\<close> writes the string: the report of the source is the list of the rendered
  entries. A set is written in the order Python visits it, which \<open>iter\<close> stands for.
\<close>

datatype report_entry =
    DuplicateNodeIds "string set"
  | NonExistentSource string
  | NonExistentTarget string
  | WorkflowContainsCycles string
  | CannotValidateVariables string
  | UndefinedVariable string string "string list"
  | MissingFunctionName string
  | MissingPromptTemplate string
  | MissingComponentType string

definition quoted :: "string \<Rightarrow> string" where
  "quoted s = [squote] @ s @ [squote]"

definition render :: "(string set \<Rightarrow> string list) \<Rightarrow> report_entry \<Rightarrow> string" where
  "render iter e =
     (case e of
        DuplicateNodeIds ids \<Rightarrow>
          ''Duplicate node IDs found: ''
            @ ''{'' @ join '', '' (map repr_string (iter ids)) @ ''}''
      | NonExistentSource nid \<Rightarrow> ''Edge references non-existent source node: '' @ nid
      | NonExistentTarget nid \<Rightarrow> ''Edge references non-existent target node: '' @ nid
      | WorkflowContainsCycles msg \<Rightarrow> ''Workflow contains cycles: '' @ msg
      | CannotValidateVariables msg \<Rightarrow>
          ''Cannot validate variables due to cyclic workflow: '' @ msg
      | UndefinedVariable nid var names \<Rightarrow>
          ''Node '' @ quoted nid @ '' references undefined variable '' @ quoted var
            @ ''. Available: '' @ py_repr (PList (map PStr names))
      | MissingFunctionName nid \<Rightarrow>
          ''Node '' @ quoted nid @ '' (function_call) missing function_name''
      | MissingPromptTemplate nid \<Rightarrow>
          ''Node '' @ quoted nid @ '' (llm_call) missing prompt_template''
      | MissingComponentType nid \<Rightarrow>
          ''Node '' @ quoted nid @ '' (visualizer) missing component_type'')"

text \<open>
  The loop of \<open>_validate_variable_references\<close> over the order. Python leaves the order
  in which \<open>for var in variables\<close> visits a set open: \<open>iter\<close> is that order.
\<close>

fun check_references ::
  "(string set \<Rightarrow> string list) \<Rightarrow> (string \<times> node) list \<Rightarrow> (string \<rightharpoonup> string set)
    \<Rightarrow> string list \<Rightarrow> error + report_entry list" where
  "check_references iter nd available_outputs [] = Inr []"
| "check_references iter nd available_outputs (nid # rest) =
     (case map_of nd nid of
        None \<Rightarrow> Inl (KeyError nid)
      | Some n \<Rightarrow>
          (let available = (case available_outputs nid of Some a \<Rightarrow> a | None \<Rightarrow> {});
               variables = extract_variables n;
               errors = map (\<lambda>var. UndefinedVariable nid var (sorted_list_of_set available))
                          (filter (\<lambda>var. var \<notin> available) (iter variables))
           in case check_references iter nd available_outputs rest of
                Inl e \<Rightarrow> Inl e
              | Inr later \<Rightarrow> Inr (errors @ later)))"

definition validate_variable_references ::
  "(string set \<Rightarrow> string list) \<Rightarrow> skill \<Rightarrow> (string \<rightharpoonup> string set)
    \<Rightarrow> error + report_entry list" where
  "validate_variable_references iter s available_outputs =
     (case get_topological_order (workflow s) of
        Inl (ValueError msg) \<Rightarrow> Inr [CannotValidateVariables msg]
      | Inl (VariableNotFound var keys) \<Rightarrow> Inl (VariableNotFound var keys)
      | Inl (KeyError k) \<Rightarrow> Inl (KeyError k)
      | Inr topo_order \<Rightarrow>
          check_references iter (nodes_dict (workflow s)) available_outputs topo_order)"

subsection \<open>Node configurations and the report\<close>

text \<open>\<open>not x\<close> for an optional string: \<open>None\<close> or the empty string.\<close>

definition missing :: "string option \<Rightarrow> bool" where
  "missing x = (case x of None \<Rightarrow> True | Some s \<Rightarrow> s = [])"

fun node_config_errors :: "node \<Rightarrow> report_entry list" where
  "node_config_errors n =
     (case node_type n of
        function_call \<Rightarrow>
          (if missing (function_name (config n)) then [MissingFunctionName (node_id n)] else [])
      | llm_call \<Rightarrow>
          (if missing (prompt_template (config n)) then [MissingPromptTemplate (node_id n)] else [])
      | visualizer \<Rightarrow>
          (if missing (component_type (config n)) then [MissingComponentType (node_id n)] else [])
      | user_approval \<Rightarrow> [])"

definition validate_node_configs :: "workflow \<Rightarrow> report_entry list" where
  "validate_node_configs w = concat (map node_config_errors (nodes w))"

text \<open>
  The first two checks of \<open>validate\<close>: the ids that occur more than once, and for every
  edge the endpoints that are no key of \<open>self.nodes\<close>.
\<close>

definition edge_errors :: "workflow \<Rightarrow> edge \<Rightarrow> report_entry list" where
  "edge_errors w e =
     (if map_of (nodes_dict w) (source_node e) = None
      then [NonExistentSource (source_node e)] else [])
     @ (if map_of (nodes_dict w) (target_node e) = None
        then [NonExistentTarget (target_node e)] else [])"

definition structural_errors :: "workflow \<Rightarrow> report_entry list" where
  "structural_errors w =
     (let ids = map node_id (nodes w);
          duplicates = filter (\<lambda>nid. count_list ids nid > 1) ids
      in (if duplicates \<noteq> [] then [DuplicateNodeIds (set duplicates)] else [])
         @ concat (map (edge_errors w) (edges w)))"

text \<open>
  \<open>validate\<close> on a fresh validator (\<open>validate_skill\<close>): \<open>available_outputs\<close> starts
  empty. \<open>_build_graph\<close> only collects ids and endpoints and raises nothing, so its
  \<open>except\<close> branch is left out. The \<open>except ValueError\<close> around the ordering lets a
  \<open>KeyError\<close> through.
\<close>

definition validate ::
  "(string set \<Rightarrow> string list) \<Rightarrow> skill \<Rightarrow> error + (bool \<times> report_entry list)" where
  "validate iter s =
     (let errors = structural_errors (workflow s) in
      case (case get_topological_order (workflow s) of
              Inl (ValueError msg) \<Rightarrow> Inr (errors @ [WorkflowContainsCycles msg])
            | Inl (VariableNotFound var keys) \<Rightarrow> Inl (VariableNotFound var keys)
            | Inl (KeyError k) \<Rightarrow> Inl (KeyError k)
            | Inr topo_order \<Rightarrow> Inr errors) of
        Inl e \<Rightarrow> Inl e
      | Inr errors \<Rightarrow>
          (case build_outputs_map s Map.empty of
             Inl e \<Rightarrow> Inl e
           | Inr available_outputs \<Rightarrow>
               (case validate_variable_references iter s available_outputs of
                  Inl e \<Rightarrow> Inl e
                | Inr var_errors \<Rightarrow>
                    (let errors = errors @ var_errors @ validate_node_configs (workflow s)
                     in Inr (errors = [], errors)))))"

section \<open>Variable resolution in the generated pipeline (graph.py)\<close>

text \<open>
  The state is the dictionary the nodes share, from variable names to values. Step 1 of
  the replacer of \<open>_resolve_template\<close>: the text of the value, by
  \<open>json.dumps(value, ensure_ascii=False)\<close> for a dictionary or a list, by
  \<open>json.dumps(value)\<close> for a number or a boolean, by \<open>str(value)\<close> otherwise.
\<close>

definition value_str :: "pyval \<Rightarrow> string" where
  "value_str v =
     (case v of
        PDict kvs \<Rightarrow> json_dumps False v
      | PList items \<Rightarrow> json_dumps False v
      | PInt i \<Rightarrow> json_dumps True v
      | PFloat r \<Rightarrow> json_dumps True v
      | PBool b \<Rightarrow> json_dumps True v
      | _ \<Rightarrow> py_str v)"

text \<open>Step 2: the five replacements, in the order of the source.\<close>

definition safe_str :: "string \<Rightarrow> string" where
  "safe_str s =
     replace tab [backslash, CHR ''t'']
       (replace creturn [backslash, CHR ''r'']
          (replace newline [backslash, CHR ''n'']
             (replace dquote [backslash, dquote]
                (replace backslash [backslash, backslash] s))))"

definition template_replacer :: "(string \<times> pyval) list \<Rightarrow> string \<Rightarrow> error + string" where
  "template_replacer state var_name =
     (case map_of state var_name of
        None \<Rightarrow> Inl (VariableNotFound var_name (map fst state))
      | Some PNone \<Rightarrow> Inl (VariableNotFound var_name (map fst state))
      | Some v \<Rightarrow> Inr (safe_str (value_str v)))"

definition resolve_template :: "string \<Rightarrow> (string \<times> pyval) list \<Rightarrow> error + string" where
  "resolve_template template_text state = sub (template_replacer state) template_text"

text \<open>
  The visualizer node \<open>_node_display_results\<close> on its template, a dictionary: the
  template is written by \<open>json.dumps\<close>, resolved as text and read back by
  \<open>json.loads\<close>. The result is the exception of the resolver, or what \<open>json.loads\<close>
  gives, its own error or the resolved template.
\<close>

definition resolved_template ::
  "(string \<times> pyval) list \<Rightarrow> (string \<times> pyval) list \<Rightarrow> error + (decode_error + pyval)" where
  "resolved_template template_dict state =
     (let template_str = json_dumps True (PDict template_dict)
      in case resolve_template template_str state of
           Inl e \<Rightarrow> Inl e
         | Inr resolved_str \<Rightarrow> Inr (json_loads resolved_str))"

text \<open>
  \<open>_resolve_param_variable\<close>: a string that is one placeholder gives the stored object;
  any other string has its placeholders replaced by \<open>str(value)\<close>.
\<close>

definition param_replacer :: "(string \<times> pyval) list \<Rightarrow> string \<Rightarrow> error + string" where
  "param_replacer state var_name =
     (case map_of state var_name of
        None \<Rightarrow> Inl (VariableNotFound var_name (map fst state))
      | Some PNone \<Rightarrow> Inl (VariableNotFound var_name (map fst state))
      | Some v \<Rightarrow> Inr (py_str v))"

definition resolve_param_variable ::
  "string \<Rightarrow> (string \<times> pyval) list \<Rightarrow> error + pyval" where
  "resolve_param_variable template_str state =
     (case fullmatch template_str of
        None \<Rightarrow>
          (case sub (param_replacer state) template_str of
             Inl e \<Rightarrow> Inl e
           | Inr text \<Rightarrow> Inr (PStr text))
      | Some var_name \<Rightarrow>
          (case map_of state var_name of
             None \<Rightarrow> Inl (VariableNotFound var_name (map fst state))
           | Some v \<Rightarrow> Inr v))"

text \<open>\<open>'{{' in s\<close>\<close>

fun has_open :: "string \<Rightarrow> bool" where
  "has_open [] = False"
| "has_open (c # cs) = (take 2 (c # cs) = ''{{'' \<or> has_open cs)"

text \<open>
  \<open>_resolve_params\<close>. An element of a list, and a value of the dictionary, is resolved
  when it is a string holding \<open>{{\<close>; the elements of a list are resolved in turn; every
  other value is stored as it is.
\<close>

definition resolve_item :: "pyval \<Rightarrow> (string \<times> pyval) list \<Rightarrow> error + pyval" where
  "resolve_item item state =
     (case item of
        PStr s \<Rightarrow> if has_open s then resolve_param_variable s state else Inr item
      | _ \<Rightarrow> Inr item)"

fun resolve_items :: "pyval list \<Rightarrow> (string \<times> pyval) list \<Rightarrow> error + pyval list" where
  "resolve_items [] state = Inr []"
| "resolve_items (item # items) state =
     (case resolve_item item state of
        Inl e \<Rightarrow> Inl e
      | Inr v \<Rightarrow>
          (case resolve_items items state of Inl e \<Rightarrow> Inl e | Inr vs \<Rightarrow> Inr (v # vs)))"

definition resolve_value :: "pyval \<Rightarrow> (string \<times> pyval) list \<Rightarrow> error + pyval" where
  "resolve_value v state =
     (case v of
        PStr s \<Rightarrow> if has_open s then resolve_param_variable s state else Inr v
      | PList items \<Rightarrow>
          (case resolve_items items state of Inl e \<Rightarrow> Inl e | Inr vs \<Rightarrow> Inr (PList vs))
      | _ \<Rightarrow> Inr v)"

fun resolve_entries ::
  "(string \<times> pyval) list \<Rightarrow> (string \<times> pyval) list \<Rightarrow> (string \<times> pyval) list
    \<Rightarrow> error + (string \<times> pyval) list" where
  "resolve_entries [] state resolved = Inr resolved"
| "resolve_entries ((key, v) # rest) state resolved =
     (case resolve_value v state of
        Inl e \<Rightarrow> Inl e
      | Inr r \<Rightarrow> resolve_entries rest state (AList.update key r resolved))"

definition resolve_params ::
  "(string \<times> pyval) list \<Rightarrow> (string \<times> pyval) list \<Rightarrow> error + (string \<times> pyval) list" where
  "resolve_params params state = resolve_entries params state []"

section \<open>Notions the properties are stated with\<close>

text \<open>
  The ids of a workflow in document order; the invariant of the data model that both
  endpoints of every edge name a node; and the edges as a relation on ids, whose
  acyclicity is that of the graph.
\<close>

definition node_ids :: "workflow \<Rightarrow> string list" where
  "node_ids w = map node_id (nodes w)"

definition edges_valid :: "workflow \<Rightarrow> bool" where
  "edges_valid w = list_all (\<lambda>e. source_node e \<in> set (node_ids w) \<and> target_node e \<in> set (node_ids w)) (edges w)"

definition edge_rel :: "workflow \<Rightarrow> (string \<times> string) set" where
  "edge_rel w = (\<lambda>e. (source_node e, target_node e)) ` set (edges w)"

text \<open>
  The targets of the edges that leave a node, in document order. The in-degree a node has
  left once the nodes of \<open>done\<close> are placed: the number of edges into it whose source is
  not placed. The nodes that are ready: not placed, with no in-degree left.
\<close>

definition successors :: "workflow \<Rightarrow> string \<Rightarrow> string list" where
  "successors w v = map target_node (filter (\<lambda>e. source_node e = v) (edges w))"

definition remaining :: "workflow \<Rightarrow> string list \<Rightarrow> string \<Rightarrow> nat" where
  "remaining w done v =
     length (filter (\<lambda>e. target_node e = v \<and> source_node e \<notin> set done) (edges w))"

definition ready :: "workflow \<Rightarrow> string list \<Rightarrow> string set" where
  "ready w done = {v \<in> set (node_ids w). v \<notin> set done \<and> remaining w done v = 0}"

text \<open>
  A sequence in which every position holds the least of the nodes ready after the
  positions before it.
\<close>

definition greedy :: "workflow \<Rightarrow> string list \<Rightarrow> bool" where
  "greedy w r = (\<forall>i<length r. r ! i \<in> ready w (take i r)
                    \<and> (\<forall>v\<in>ready w (take i r). r ! i \<le> v))"

text \<open>
  The invariant of the loop of Kahn's algorithm on its two dictionaries: the adjacency
  lists are those of the graph, and the counts are the in-degrees left after the result
  so far.
\<close>

definition adj_ok :: "workflow \<Rightarrow> (string \<times> string list) list \<Rightarrow> bool" where
  "adj_ok w adj = (\<forall>v. map_of adj v =
      (if v \<in> set (node_ids w) then Some (successors w v) else None))"

definition deg_ok :: "workflow \<Rightarrow> (string \<times> int) list \<Rightarrow> string list \<Rightarrow> bool" where
  "deg_ok w deg r = (\<forall>v. map_of deg v =
      (if v \<in> set (node_ids w) then Some (int (remaining w r v)) else None))"

text \<open>What the node of an id adds to the visible set.\<close>

definition outputs_of :: "workflow \<Rightarrow> string \<Rightarrow> string set" where
  "outputs_of w nid =
     (case map_of (nodes_dict w) nid of Some n \<Rightarrow> output_names nid n | None \<Rightarrow> {})"

text \<open>The string leaves of a value, through nested dictionaries and lists.\<close>

fun string_leaves :: "pyval \<Rightarrow> string list"
  and value_leaves :: "(string \<times> pyval) list \<Rightarrow> string list"
  and item_leaves :: "pyval list \<Rightarrow> string list" where
  "string_leaves (PDict kvs) = value_leaves kvs"
| "string_leaves (PList items) = item_leaves items"
| "string_leaves (PStr s) = [s]"
| "string_leaves PNone = []"
| "string_leaves (PBool b) = []"
| "string_leaves (PInt i) = []"
| "string_leaves (PFloat f) = []"
| "value_leaves [] = []"
| "value_leaves ((k, v) # kvs) = string_leaves v @ value_leaves kvs"
| "item_leaves [] = []"
| "item_leaves (item # items) = string_leaves item @ item_leaves items"

text \<open>A report entry is the scope error of a node and a variable.\<close>

definition is_scope_error :: "string \<Rightarrow> string \<Rightarrow> report_entry \<Rightarrow> bool" where
  "is_scope_error nid var e =
     (case e of UndefinedVariable n v names \<Rightarrow> n = nid \<and> v = var | _ \<Rightarrow> False)"

text \<open>A name a placeholder can hold, and the placeholder of a name.\<close>

definition is_name :: "string \<Rightarrow> bool" where
  "is_name name = (name \<noteq> [] \<and> list_all is_word_char name)"

definition token :: "string \<Rightarrow> string" where
  "token name = ''{{'' @ name @ ''}}''"





text \<open>What the five replacements do to one character.\<close>

definition escape_char :: "char \<Rightarrow> string" where
  "escape_char c =
     (if c = backslash then [backslash, backslash]
      else if c = dquote then [backslash, dquote]
      else if c = newline then [backslash, CHR ''n'']
      else if c = creturn then [backslash, CHR ''r'']
      else if c = tab then [backslash, CHR ''t'']
      else [c])"

text \<open>
  Text with no control character but newline, carriage return and tab; and text that
  stands for itself both in a template and in a string literal.
\<close>

definition json_safe :: "string \<Rightarrow> bool" where
  "json_safe t =
     list_all (\<lambda>c. 32 \<le> (of_char c :: nat) \<or> c = newline \<or> c = creturn \<or> c = tab) t"



section \<open>Inputs the properties are checked on\<close>

text \<open>
  A skill after the one behind \<open>output/workorder_similarity_search_20251106_190741/graph.py\<close>,
  as far as the pipeline generated for it shows: two parameters and five nodes in a chain.
  The prompt is shortened, the type names are chosen here, and the edges are listed out of
  order on purpose. \<open>example_rank\<close> decreases along every edge.
\<close>

definition no_config :: node_config where
  "no_config = \<lparr>function_name = None, function_params = None, model = None,
     prompt_template = None, temperature = None, component_type = None, template = None\<rparr>"

definition example_nodes :: "node list" where
  "example_nodes =
     [\<lparr>node_id = ''generate_embedding'', node_type = function_call,
        config = no_config\<lparr>function_name := Some ''/api/embeddings/generate'',
                           function_params := Some []\<rparr>,
        outputs = Some [\<lparr>output_name = ''embedding'', output_type = ''array''\<rparr>]\<rparr>,
      \<lparr>node_id = ''vector_search'', node_type = function_call,
        config = no_config\<lparr>function_name := Some ''VectorSearchWorkOrders'',
                           function_params := Some [(''embedding'', PStr ''{{embedding}}''),
                                                    (''limit'', PStr ''{{limit}}'')]\<rparr>,
        outputs = Some [\<lparr>output_name = ''similar_workorders'', output_type = ''array''\<rparr>]\<rparr>,
      \<lparr>node_id = ''enrich_results'', node_type = function_call,
        config = no_config\<lparr>function_name := Some ''MxFetchWorkOrderDetails'',
                           function_params :=
                             Some [(''workorder_ids'', PStr ''{{similar_workorders}}'')]\<rparr>,
        outputs = Some []\<rparr>,
      \<lparr>node_id = ''summarize_findings'', node_type = llm_call,
        config = no_config\<lparr>model := Some ''claude-sonnet-4-5'',
                           prompt_template :=
                             Some ''For {{workorder_description}}: {{enriched_results}}'',
                           temperature := Some ''0.3''\<rparr>,
        outputs = Some []\<rparr>,
      \<lparr>node_id = ''display_results'', node_type = visualizer,
        config = no_config\<lparr>component_type := Some ''card'',
                           template :=
                             Some [(''title'', PStr ''Similar Work Orders''),
                                   (''sections'',
                                    PList [PDict [(''type'', PStr ''summary''),
                                                  (''data'', PStr ''{{summarized_findings}}'')],
                                           PDict [(''type'', PStr ''list''),
                                                  (''data'', PStr ''{{enriched_results}}'')]])]\<rparr>,
        outputs = Some []\<rparr>]"

definition example_workflow :: workflow where
  "example_workflow =
     \<lparr>nodes = example_nodes,
      edges = [\<lparr>source_node = ''summarize_findings'', target_node = ''display_results''\<rparr>,
               \<lparr>source_node = ''vector_search'', target_node = ''enrich_results''\<rparr>,
               \<lparr>source_node = ''generate_embedding'', target_node = ''vector_search''\<rparr>,
               \<lparr>source_node = ''enrich_results'', target_node = ''summarize_findings''\<rparr>]\<rparr>"

definition example_skill :: skill where
  "example_skill =
     \<lparr>parameters =
        [\<lparr>param_name = ''workorder_description'', param_type = ''string'',
           required = True, default_value = None\<rparr>,
         \<lparr>param_name = ''limit'', param_type = ''integer'',
           required = False, default_value = Some (PInt 10)\<rparr>],
      workflow = example_workflow\<rparr>"

definition example_rank :: "string \<Rightarrow> nat" where
  "example_rank v =
     (if v = ''generate_embedding'' then 4
      else if v = ''vector_search'' then 3
      else if v = ''enrich_results'' then 2
      else if v = ''summarize_findings'' then 1
      else 0)"

text \<open>
  A graph with a cycle, whose first node is a function call that names no function.
\<close>

definition cyclic_workflow :: workflow where
  "cyclic_workflow =
     \<lparr>nodes = [\<lparr>node_id = ''fetch'', node_type = function_call, config = no_config,
                 outputs = None\<rparr>,
               \<lparr>node_id = ''review'', node_type = user_approval, config = no_config,
                 outputs = None\<rparr>],
      edges = [\<lparr>source_node = ''fetch'', target_node = ''review''\<rparr>,
               \<lparr>source_node = ''review'', target_node = ''fetch''\<rparr>]\<rparr>"

definition cyclic_skill :: skill where
  "cyclic_skill = \<lparr>parameters = [], workflow = cyclic_workflow\<rparr>"

text \<open>One node and an edge whose source names no node.\<close>

definition dangling_skill :: skill where
  "dangling_skill =
     \<lparr>parameters = [],
      workflow =
        \<lparr>nodes = [\<lparr>node_id = ''fetch'', node_type = user_approval, config = no_config,
                    outputs = None\<rparr>],
         edges = [\<lparr>source_node = ''ghost'', target_node = ''fetch''\<rparr>]\<rparr>\<rparr>"

text \<open>A node that reads a parameter and a variable nothing provides.\<close>

definition undefined_var_skill :: skill where
  "undefined_var_skill =
     \<lparr>parameters = [\<lparr>param_name = ''topic'', param_type = ''string'', required = True,
                      default_value = None\<rparr>],
      workflow =
        \<lparr>nodes = [\<lparr>node_id = ''report'', node_type = llm_call,
                    config = no_config\<lparr>prompt_template :=
                               Some ''Summarize {{undefined_var}} for {{topic}}''\<rparr>,
                    outputs = None\<rparr>],
         edges = []\<rparr>\<rparr>"



text \<open>
  A call whose parameter holds a placeholder inside a nested dictionary, run on an empty
  state, and a node with the same parameters.
\<close>

definition nested_params :: "(string \<times> pyval) list" where
  "nested_params = [(''filter'', PDict [(''ids'', PStr ''{{similar_workorders}}'')])]"

definition nested_node :: node where
  "nested_node =
     \<lparr>node_id = ''enrich_results'', node_type = function_call,
      config = no_config\<lparr>function_name := Some ''MxFetchWorkOrderDetails'',
                         function_params := Some nested_params\<rparr>,
      outputs = None\<rparr>"


section \<open>Lemmas\<close>

subsection \<open>Kahn's algorithm\<close>

lemma map_of_fold_update:
  "map_of (fold (\<lambda>n d. AList.update (node_id n) v d) ns d0) k
     = (if k \<in> node_id ` set ns then Some v else map_of d0 k)"
  by (induction ns arbitrary: d0) (auto simp: update_conv')

lemma keys_fold_update:
  "distinct (map fst d0) \<Longrightarrow>
   distinct (map fst (fold (\<lambda>n d. AList.update (node_id n) v d) ns d0))"
  by (induction ns arbitrary: d0) (auto simp: distinct_update)

lemma map_of_dict_from_ids:
  "map_of (dict_from_ids v ns) k = (if k \<in> node_id ` set ns then Some v else None)"
  by (simp add: dict_from_ids_def map_of_fold_update)

lemma distinct_dict_from_ids: "distinct (map fst (dict_from_ids v ns))"
  by (simp add: dict_from_ids_def keys_fold_update)

lemma add_edges_ok:
  assumes "\<forall>e\<in>set es. source_node e \<in> dom (map_of adj) \<and> target_node e \<in> dom (map_of deg)"
  shows "\<exists>adj' deg'. add_edges es adj deg = Inr (adj', deg')
     \<and> (\<forall>v. map_of adj' v =
            map_option (\<lambda>ts. ts @ map target_node (filter (\<lambda>e. source_node e = v) es)) (map_of adj v))
     \<and> (\<forall>v. map_of deg' v =
            map_option (\<lambda>d. d + int (length (filter (\<lambda>e. target_node e = v) es))) (map_of deg v))
     \<and> map fst deg' = map fst deg"
  using assms
proof (induction es arbitrary: adj deg)
  case Nil
  then show ?case by (simp add: option.map_ident)
next
  case (Cons e es)
  from Cons.prems obtain ts d where ts: "map_of adj (source_node e) = Some ts"
    and d: "map_of deg (target_node e) = Some d"
    by auto
  let ?adj = "AList.update (source_node e) (ts @ [target_node e]) adj"
  let ?deg = "AList.update (target_node e) (d + 1) deg"
  have "\<forall>x\<in>set es. source_node x \<in> dom (map_of ?adj) \<and> target_node x \<in> dom (map_of ?deg)"
    using Cons.prems by (auto simp: update_conv')
  from Cons.IH [OF this] obtain adj' deg' where
    r: "add_edges es ?adj ?deg = Inr (adj', deg')"
    and a: "\<forall>v. map_of adj' v =
            map_option (\<lambda>ts. ts @ map target_node (filter (\<lambda>e. source_node e = v) es)) (map_of ?adj v)"
    and b: "\<forall>v. map_of deg' v =
            map_option (\<lambda>d. d + int (length (filter (\<lambda>e. target_node e = v) es))) (map_of ?deg v)"
    and k: "map fst deg' = map fst ?deg"
    by blast
  have "add_edges (e # es) adj deg = Inr (adj', deg')"
    using ts d r by simp
  moreover have "\<forall>v. map_of adj' v =
      map_option (\<lambda>ts. ts @ map target_node (filter (\<lambda>x. source_node x = v) (e # es))) (map_of adj v)"
    using a ts by (auto simp: update_conv')
  moreover have "\<forall>v. map_of deg' v =
      map_option (\<lambda>d. d + int (length (filter (\<lambda>x. target_node x = v) (e # es)))) (map_of deg v)"
    using b d by (auto simp: update_conv')
  moreover have "map fst deg' = map fst deg"
    using k d by (auto simp: update_keys dest: map_of_SomeD intro: rev_image_eqI)
  ultimately show ?case by blast
qed

lemma add_edges_fail:
  assumes "\<exists>e\<in>set es. source_node e \<notin> dom (map_of adj) \<or> target_node e \<notin> dom (map_of deg)"
  shows "\<exists>k. add_edges es adj deg = Inl (KeyError k)"
  using assms
proof (induction es arbitrary: adj deg)
  case Nil
  then show ?case by simp
next
  case (Cons e es)
  show ?case
  proof (cases "source_node e \<in> dom (map_of adj) \<and> target_node e \<in> dom (map_of deg)")
    case False
    then show ?thesis by (auto split: option.splits)
  next
    case True
    then obtain ts d where ts: "map_of adj (source_node e) = Some ts"
      and d: "map_of deg (target_node e) = Some d"
      by auto
    let ?adj = "AList.update (source_node e) (ts @ [target_node e]) adj"
    let ?deg = "AList.update (target_node e) (d + 1) deg"
    have "dom (map_of ?adj) = dom (map_of adj)" "dom (map_of ?deg) = dom (map_of deg)"
      using ts d by (auto simp: update_conv')
    with Cons.prems True
    have "\<exists>x\<in>set es. source_node x \<notin> dom (map_of ?adj) \<or> target_node x \<notin> dom (map_of ?deg)"
      by auto
    from Cons.IH [OF this] show ?thesis using ts d by simp
  qed
qed

lemma relax_ok:
  assumes "\<forall>v\<in>set nbs. \<exists>d. map_of deg v = Some d \<and> int (count_list nbs v) \<le> d"
  shows "\<exists>deg' new. relax nbs deg q = Inr (deg', q @ new)
     \<and> (\<forall>v. map_of deg' v = map_option (\<lambda>d. d - int (count_list nbs v)) (map_of deg v))
     \<and> distinct new
     \<and> set new = {v \<in> set nbs. map_of deg v = Some (int (count_list nbs v))}"
  using assms
proof (induction nbs arbitrary: deg q)
  case Nil
  then show ?case by (simp add: option.map_ident)
next
  case (Cons nb rest)
  from Cons.prems obtain d0 where d0: "map_of deg nb = Some d0"
    and le0: "1 + int (count_list rest nb) \<le> d0"
    by auto
  let ?deg = "AList.update nb (d0 - 1) deg"
  let ?q = "if d0 - 1 = 0 then q @ [nb] else q"
  have pre: "\<forall>v\<in>set rest. \<exists>d. map_of ?deg v = Some d \<and> int (count_list rest v) \<le> d"
  proof
    fix v assume v: "v \<in> set rest"
    show "\<exists>d. map_of ?deg v = Some d \<and> int (count_list rest v) \<le> d"
    proof (cases "v = nb")
      case True
      with le0 show ?thesis by (simp add: update_conv')
    next
      case False
      with Cons.prems v show ?thesis by (auto simp: update_conv')
    qed
  qed
  from Cons.IH [OF pre, of ?q] obtain deg' new1 where
    r: "relax rest ?deg ?q = Inr (deg', ?q @ new1)"
    and m: "\<forall>v. map_of deg' v = map_option (\<lambda>d. d - int (count_list rest v)) (map_of ?deg v)"
    and dn: "distinct new1"
    and sn: "set new1 = {v \<in> set rest. map_of ?deg v = Some (int (count_list rest v))}"
    by blast
  let ?new = "(if d0 - 1 = 0 then [nb] else []) @ new1"
  have 1: "relax (nb # rest) deg q = Inr (deg', q @ ?new)"
    using d0 r by simp
  have 2: "\<forall>v. map_of deg' v = map_option (\<lambda>d. d - int (count_list (nb # rest) v)) (map_of deg v)"
    using m d0 by (auto simp: update_conv')
  have nb_rest: "d0 = 1 \<Longrightarrow> nb \<notin> set rest"
    using le0 by (auto simp: count_list_0_iff)
  have 3: "distinct ?new"
    using dn sn nb_rest by auto
  have 4: "set ?new = {v \<in> set (nb # rest). map_of deg v = Some (int (count_list (nb # rest) v))}"
  proof (cases "d0 = 1")
    case True
    with nb_rest have "nb \<notin> set rest" by simp
    then have "set new1 = {v \<in> set rest. map_of deg v = Some (int (count_list rest v))}"
      using sn by (auto simp: update_conv')
    moreover have "count_list rest nb = 0"
      using \<open>nb \<notin> set rest\<close> by (simp add: count_list_0_iff)
    ultimately show ?thesis using True d0 \<open>nb \<notin> set rest\<close> by auto
  next
    case False
    have "nb \<in> set new1 \<longleftrightarrow> d0 = 1 + int (count_list rest nb)"
    proof
      assume "nb \<in> set new1"
      with sn show "d0 = 1 + int (count_list rest nb)" by (auto simp: update_conv')
    next
      assume e: "d0 = 1 + int (count_list rest nb)"
      with False have "count_list rest nb \<noteq> 0" by auto
      then have "nb \<in> set rest" by (simp add: count_list_0_iff)
      with sn e show "nb \<in> set new1" by (auto simp: update_conv')
    qed
    moreover have "\<And>v. v \<noteq> nb \<Longrightarrow> v \<in> set new1 \<longleftrightarrow>
        v \<in> set rest \<and> map_of deg v = Some (int (count_list rest v))"
      using sn by (auto simp: update_conv')
    ultimately show ?thesis using False d0 by auto
  qed
  from 1 2 3 4 show ?case by blast
qed

lemma greedy_Nil: "greedy w []"
  by (simp add: greedy_def)

lemma greedy_snoc:
  assumes "greedy w r" and "x \<in> ready w r" and "\<forall>v\<in>ready w r. x \<le> v"
  shows "greedy w (r @ [x])"
  unfolding greedy_def
proof (intro allI impI)
  fix i assume "i < length (r @ [x])"
  then consider "i < length r" | "i = length r" by fastforce
  then show "(r @ [x]) ! i \<in> ready w (take i (r @ [x]))
      \<and> (\<forall>v\<in>ready w (take i (r @ [x])). (r @ [x]) ! i \<le> v)"
  proof cases
    case 1
    with assms(1) show ?thesis by (simp add: greedy_def nth_append)
  next
    case 2
    with assms(2,3) show ?thesis by simp
  qed
qed

lemma greedy_take: "greedy w r \<Longrightarrow> greedy w (take n r)"
  by (auto simp: greedy_def min_def)

lemma greedy_fresh:
  assumes "greedy w r" and "i < length r"
  shows "r ! i \<in> set (node_ids w)" and "r ! i \<notin> set (take i r)"
  using assms by (auto simp: greedy_def ready_def)

lemma greedy_distinct: "greedy w r \<Longrightarrow> distinct r"
proof (induction r rule: rev_induct)
  case Nil
  then show ?case by simp
next
  case (snoc x xs)
  from greedy_take [OF snoc.prems, of "length xs"] have "greedy w xs" by simp
  with snoc.IH have "distinct xs" .
  moreover from greedy_fresh(2) [OF snoc.prems, of "length xs"] have "x \<notin> set xs" by simp
  ultimately show ?case by simp
qed

lemma greedy_subset: "greedy w r \<Longrightarrow> set r \<subseteq> set (node_ids w)"
proof
  fix x assume g: "greedy w r" and "x \<in> set r"
  then obtain i where "i < length r" "r ! i = x" by (auto simp: in_set_conv_nth)
  with greedy_fresh(1) [OF g] show "x \<in> set (node_ids w)" by blast
qed

lemma remaining_zero_iff:
  "remaining w done v = 0 \<longleftrightarrow>
     (\<forall>e\<in>set (edges w). target_node e = v \<longrightarrow> source_node e \<in> set done)"
  by (auto simp: remaining_def filter_empty_conv)

lemma greedy_precedes:
  assumes "greedy w r" and "e \<in> set (edges w)" and "j < length r" and "r ! j = target_node e"
  shows "\<exists>i<j. r ! i = source_node e"
proof -
  from assms(1,3) have "remaining w (take j r) (r ! j) = 0"
    by (simp add: greedy_def ready_def)
  with assms(2,4) have "source_node e \<in> set (take j r)"
    by (simp add: remaining_zero_iff)
  then obtain i where "i < length (take j r)" "take j r ! i = source_node e"
    by (auto simp: in_set_conv_nth)
  with assms(3) show ?thesis by auto
qed

lemma greedy_closed:
  assumes "greedy w r" and "e \<in> set (edges w)" and "target_node e \<in> set r"
  shows "source_node e \<in> set r"
proof -
  from assms(3) obtain j where j: "j < length r" "r ! j = target_node e"
    by (auto simp: in_set_conv_nth)
  from greedy_precedes [OF assms(1,2) j] obtain i where "i < j" "r ! i = source_node e"
    by blast
  with j(1) have "i < length r" by simp
  with \<open>r ! i = source_node e\<close> show ?thesis by (metis nth_mem)
qed

lemma count_list_successors:
  "count_list (successors w c) v
     = length (filter (\<lambda>e. source_node e = c \<and> target_node e = v) (edges w))"
proof -
  have "count_list (map target_node (filter (\<lambda>e. source_node e = c) es)) v
     = length (filter (\<lambda>e. source_node e = c \<and> target_node e = v) es)" for es
    by (induction es) auto
  then show ?thesis by (simp add: successors_def)
qed

lemma remaining_snoc:
  assumes "c \<notin> set r"
  shows "remaining w r v = remaining w (r @ [c]) v + count_list (successors w c) v"
proof -
  have "length (filter (\<lambda>e. target_node e = v \<and> source_node e \<notin> set r) es)
      = length (filter (\<lambda>e. target_node e = v \<and> source_node e \<notin> set (r @ [c])) es)
        + length (filter (\<lambda>e. source_node e = c \<and> target_node e = v) es)" for es
    using assms by (induction es) auto
  then show ?thesis by (simp add: remaining_def count_list_successors)
qed

lemma successors_valid:
  assumes "edges_valid w" and "v \<in> set (successors w c)"
  shows "v \<in> set (node_ids w)"
  using assms by (auto simp: edges_valid_def successors_def list_all_iff)

lemma successors_edge:
  assumes "v \<in> set (successors w c)"
  shows "\<exists>e\<in>set (edges w). source_node e = c \<and> target_node e = v"
  using assms by (auto simp: successors_def)

lemma kahn_step_queue:
  assumes valid: "edges_valid w"
    and g: "greedy w r"
    and c: "c \<in> ready w r"
    and new: "set new = {v \<in> set (successors w c).
                 int (remaining w r v) = int (count_list (successors w c) v)}"
  shows "ready w (r @ [c]) = (ready w r - {c}) \<union> set new"
    and "set new \<inter> ready w r = {}"
proof -
  from c have c_r: "c \<notin> set r" and c0: "remaining w r c = 0"
    by (auto simp: ready_def)
  have pos: "0 < count_list (successors w c) v" if "v \<in> set (successors w c)" for v
    using that count_list_0_iff [of "successors w c" v] by auto
  have rem: "remaining w r v = remaining w (r @ [c]) v + count_list (successors w c) v" for v
    using remaining_snoc [OF c_r] .
  show "set new \<inter> ready w r = {}"
  proof -
    have "v \<notin> ready w r" if "v \<in> set new" for v
    proof -
      from that new have "v \<in> set (successors w c)"
        and "remaining w r v = count_list (successors w c) v" by auto
      with pos [of v] have "0 < remaining w r v" by simp
      then show ?thesis by (simp add: ready_def)
    qed
    then show ?thesis by auto
  qed
  show "ready w (r @ [c]) = (ready w r - {c}) \<union> set new"
  proof (intro set_eqI iffI)
    fix v assume v: "v \<in> ready w (r @ [c])"
    then have vV: "v \<in> set (node_ids w)" and vr: "v \<notin> set r" and vc: "v \<noteq> c"
      and v0: "remaining w (r @ [c]) v = 0"
      by (auto simp: ready_def)
    show "v \<in> (ready w r - {c}) \<union> set new"
    proof (cases "count_list (successors w c) v = 0")
      case True
      with rem [of v] v0 have "remaining w r v = 0" by simp
      with vV vr vc show ?thesis by (simp add: ready_def)
    next
      case False
      then have "v \<in> set (successors w c)" by (simp add: count_list_0_iff)
      moreover from rem [of v] v0
      have "remaining w r v = count_list (successors w c) v" by simp
      ultimately show ?thesis using new by simp
    qed
  next
    fix v assume "v \<in> (ready w r - {c}) \<union> set new"
    then consider "v \<in> ready w r" "v \<noteq> c" | "v \<in> set new" by blast
    then show "v \<in> ready w (r @ [c])"
    proof cases
      case 1
      then have "remaining w r v = 0" by (simp add: ready_def)
      with rem [of v] have "remaining w (r @ [c]) v = 0" by simp
      with 1 show ?thesis by (simp add: ready_def)
    next
      case 2
      with new have vs: "v \<in> set (successors w c)"
        and eq: "remaining w r v = count_list (successors w c) v" by auto
      from successors_valid [OF valid vs] have vV: "v \<in> set (node_ids w)" .
      from rem [of v] eq have v0: "remaining w (r @ [c]) v = 0" by simp
      from successors_edge [OF vs] obtain e where e: "e \<in> set (edges w)"
        "source_node e = c" "target_node e = v" by blast
      have vr: "v \<notin> set r"
      proof
        assume "v \<in> set r"
        with greedy_closed [OF g e(1)] e(2,3) have "c \<in> set r" by simp
        with c_r show False by simp
      qed
      have vc: "v \<noteq> c"
      proof
        assume "v = c"
        with eq c0 pos [OF vs] show False by simp
      qed
      from vV vr vc v0 show ?thesis by (simp add: ready_def)
    qed
  qed
qed

lemma sort_Cons_least:
  assumes "sort q = c # q'" and "distinct q"
  shows "c \<in> set q" and "\<forall>v\<in>set q. c \<le> v" and "set q' = set q - {c}" and "distinct q'"
proof -
  have s: "set (c # q') = set q" using assms(1) by (metis set_sort)
  have d: "distinct (c # q')" using assms by (metis distinct_sort)
  have o: "sorted (c # q')" using assms(1) by (metis sorted_sort)
  from s show "c \<in> set q" by auto
  from o s show "\<forall>v\<in>set q. c \<le> v" by auto
  from s d show "set q' = set q - {c}" by auto
  from d show "distinct q'" by simp
qed

lemma kahn_loop_greedy:
  assumes valid: "edges_valid w"
  shows "adj_ok w adj \<Longrightarrow> deg_ok w deg r \<Longrightarrow> distinct q \<Longrightarrow> set q = ready w r \<Longrightarrow>
     greedy w r \<Longrightarrow>
     \<exists>r'. kahn_loop adj deg q r = Inr r' \<and> greedy w r' \<and> ready w r' = {}"
proof (induction adj deg q r rule: kahn_loop.induct)
  case (1 adj deg q r)
  note adj = \<open>adj_ok w adj\<close> [unfolded adj_ok_def, rule_format]
  note deg = \<open>deg_ok w deg r\<close> [unfolded deg_ok_def, rule_format]
  show ?case
  proof (cases "sort q")
    case Nil
    then have "q = []" by (metis length_0_conv length_sort)
    with "1.prems" Nil show ?thesis by (simp add: kahn_loop.simps)
  next
    case (Cons c q')
    note least = sort_Cons_least [OF Cons \<open>distinct q\<close>]
    from least(1) "1.prems"(4) have c: "c \<in> ready w r" by simp
    then have cV: "c \<in> set (node_ids w)" and c_r: "c \<notin> set r"
      by (auto simp: ready_def)
    let ?nbs = "successors w c"
    from adj [of c] cV have look: "map_of adj c = Some ?nbs" by simp
    have pre: "\<forall>v\<in>set ?nbs. \<exists>d. map_of deg v = Some d \<and> int (count_list ?nbs v) \<le> d"
    proof
      fix v assume "v \<in> set ?nbs"
      from successors_valid [OF valid this] deg [of v]
      have "map_of deg v = Some (int (remaining w r v))" by simp
      moreover from remaining_snoc [OF c_r, of w v]
      have "count_list ?nbs v \<le> remaining w r v" by simp
      ultimately show "\<exists>d. map_of deg v = Some d \<and> int (count_list ?nbs v) \<le> d" by simp
    qed
    from relax_ok [OF pre, of q'] obtain deg' new where
      rel: "relax ?nbs deg q' = Inr (deg', q' @ new)"
      and m: "\<forall>v. map_of deg' v = map_option (\<lambda>d. d - int (count_list ?nbs v)) (map_of deg v)"
      and dn: "distinct new"
      and sn: "set new = {v \<in> set ?nbs. map_of deg v = Some (int (count_list ?nbs v))}"
      by blast
    have sn': "set new = {v \<in> set ?nbs. int (remaining w r v) = int (count_list ?nbs v)}"
    proof -
      have "map_of deg v = Some (int (remaining w r v))" if "v \<in> set ?nbs" for v
        using successors_valid [OF valid that] deg [of v] by simp
      with sn show ?thesis by auto
    qed
    note step = kahn_step_queue [OF valid \<open>greedy w r\<close> c sn']
    have deg': "deg_ok w deg' (r @ [c])"
      unfolding deg_ok_def
    proof
      fix v
      from remaining_snoc [OF c_r, of w v]
      have "int (remaining w r v) - int (count_list ?nbs v) = int (remaining w (r @ [c]) v)"
        by simp
      with m deg [of v]
      show "map_of deg' v =
          (if v \<in> set (node_ids w) then Some (int (remaining w (r @ [c]) v)) else None)"
        by simp
    qed
    have dq: "distinct (q' @ new)"
      using least(3,4) dn step(2) "1.prems"(4) by auto
    have sq: "set (q' @ new) = ready w (r @ [c])"
      using least(3) step(1) "1.prems"(4) by simp
    have gr: "greedy w (r @ [c])"
      using greedy_snoc [OF \<open>greedy w r\<close> c] least(2) "1.prems"(4) by simp
    from "1.IH" [OF Cons look rel refl \<open>adj_ok w adj\<close> deg' dq sq gr]
    obtain r' where "kahn_loop adj deg' (q' @ new) (r @ [c]) = Inr r'"
      and "greedy w r'" and "ready w r' = {}"
      by blast
    moreover have "kahn_loop adj deg q r = kahn_loop adj deg' (q' @ new) (r @ [c])"
      using Cons look rel by (subst kahn_loop.simps) simp
    ultimately show ?thesis by simp
  qed
qed

lemma initial_tables:
  assumes "edges_valid w"
  shows "\<exists>adj deg. add_edges (edges w) (dict_from_ids [] (nodes w)) (dict_from_ids 0 (nodes w))
            = Inr (adj, deg)
     \<and> adj_ok w adj \<and> deg_ok w deg [] \<and> distinct (map fst deg)"
proof -
  let ?adj = "dict_from_ids ([] :: string list) (nodes w)"
  let ?deg = "dict_from_ids (0 :: int) (nodes w)"
  have "\<forall>e\<in>set (edges w). source_node e \<in> dom (map_of ?adj) \<and> target_node e \<in> dom (map_of ?deg)"
    using assms by (auto simp: edges_valid_def list_all_iff node_ids_def map_of_dict_from_ids dom_def)
  from add_edges_ok [OF this] obtain adj deg where
    r: "add_edges (edges w) ?adj ?deg = Inr (adj, deg)"
    and a: "\<forall>v. map_of adj v =
        map_option (\<lambda>ts. ts @ map target_node (filter (\<lambda>e. source_node e = v) (edges w)))
          (map_of ?adj v)"
    and d: "\<forall>v. map_of deg v =
        map_option (\<lambda>d. d + int (length (filter (\<lambda>e. target_node e = v) (edges w))))
          (map_of ?deg v)"
    and k: "map fst deg = map fst ?deg"
    by blast
  have "adj_ok w adj"
    using a by (simp add: adj_ok_def map_of_dict_from_ids node_ids_def successors_def)
  moreover have "deg_ok w deg []"
    using d by (simp add: deg_ok_def map_of_dict_from_ids node_ids_def remaining_def)
  moreover have "distinct (map fst deg)"
    using k by (simp add: distinct_dict_from_ids)
  ultimately show ?thesis using r by blast
qed

lemma initial_queue:
  assumes "deg_ok w deg []" and "distinct (map fst deg)"
  shows "distinct (map fst (filter (\<lambda>kd. snd kd = 0) deg))"
    and "set (map fst (filter (\<lambda>kd. snd kd = 0) deg)) = ready w []"
proof -
  show "distinct (map fst (filter (\<lambda>kd. snd kd = 0) deg))"
    using assms(2) by (rule distinct_map_filter)
  have "k \<in> set (map fst (filter (\<lambda>kd. snd kd = 0) deg)) \<longleftrightarrow> map_of deg k = Some 0" for k
    using assms(2) by (auto simp: map_of_eq_Some_iff image_iff)
  moreover have "map_of deg k = Some 0 \<longleftrightarrow> k \<in> ready w []" for k
    using assms(1) [unfolded deg_ok_def, rule_format, of k] by (simp add: ready_def)
  ultimately show "set (map fst (filter (\<lambda>kd. snd kd = 0) deg)) = ready w []"
    by blast
qed

lemma get_topological_order_greedy:
  assumes "edges_valid w"
  shows "\<exists>r. greedy w r \<and> ready w r = {}
     \<and> get_topological_order w =
         (if length r \<noteq> length (nodes w) then Inl (ValueError cycle_message) else Inr r)"
proof -
  from initial_tables [OF assms] obtain adj deg where
    t: "add_edges (edges w) (dict_from_ids [] (nodes w)) (dict_from_ids 0 (nodes w))
          = Inr (adj, deg)"
    and a: "adj_ok w adj" and d: "deg_ok w deg []" and k: "distinct (map fst deg)"
    by blast
  from kahn_loop_greedy [OF assms a d initial_queue [OF d k] greedy_Nil]
  obtain r where "kahn_loop adj deg (map fst (filter (\<lambda>kd. snd kd = 0) deg)) [] = Inr r"
    and "greedy w r" and "ready w r = {}"
    by blast
  with t show ?thesis by (auto simp: get_topological_order_def)
qed

lemma get_topological_order_dangling:
  assumes "\<not> edges_valid w"
  shows "\<exists>k. get_topological_order w = Inl (KeyError k)"
proof -
  let ?adj = "dict_from_ids ([] :: string list) (nodes w)"
  let ?deg = "dict_from_ids (0 :: int) (nodes w)"
  have "\<exists>e\<in>set (edges w). source_node e \<notin> dom (map_of ?adj) \<or> target_node e \<notin> dom (map_of ?deg)"
    using assms by (auto simp: edges_valid_def list_all_iff node_ids_def map_of_dict_from_ids dom_def)
  from add_edges_fail [OF this] show ?thesis
    by (auto simp: get_topological_order_def)
qed

lemma greedy_complete:
  assumes valid: "edges_valid w" and acyc: "acyclic (edge_rel w)"
    and g: "greedy w r" and empty: "ready w r = {}"
  shows "set r = set (node_ids w)"
proof (rule ccontr)
  assume "set r \<noteq> set (node_ids w)"
  with greedy_subset [OF g] have ne: "set (node_ids w) - set r \<noteq> {}" by blast
  have "finite (edge_rel w)" by (simp add: edge_rel_def)
  from finite_acyclic_wf [OF this acyc] have "wf (edge_rel w)" .
  from wfE_min' [OF this ne] obtain z where z: "z \<in> set (node_ids w) - set r"
    and min: "\<And>y. (y, z) \<in> edge_rel w \<Longrightarrow> y \<notin> set (node_ids w) - set r"
    by blast
  have "remaining w r z = 0"
    unfolding remaining_zero_iff
  proof (intro ballI impI)
    fix e assume e: "e \<in> set (edges w)" and t: "target_node e = z"
    then have "(source_node e, z) \<in> edge_rel w" by (force simp: edge_rel_def)
    from min [OF this] have "source_node e \<notin> set (node_ids w) - set r" .
    moreover from valid e have "source_node e \<in> set (node_ids w)"
      by (simp add: edges_valid_def list_all_iff)
    ultimately show "source_node e \<in> set r" by simp
  qed
  with z have "z \<in> ready w r" by (simp add: ready_def)
  with empty show False by simp
qed

lemma greedy_cyclic:
  assumes valid: "edges_valid w" and cyc: "(v, v) \<in> (edge_rel w)\<^sup>+" and g: "greedy w r"
  shows "set r \<noteq> set (node_ids w)"
proof
  assume all: "set r = set (node_ids w)"
  define before where "before = {(a, b). \<exists>i j. i < j \<and> j < length r \<and> r ! i = a \<and> r ! j = b}"
  note dist = greedy_distinct [OF g]
  have sub: "edge_rel w \<subseteq> before"
  proof
    fix p assume "p \<in> edge_rel w"
    then obtain e where e: "e \<in> set (edges w)" and p: "p = (source_node e, target_node e)"
      by (auto simp: edge_rel_def)
    from valid e all have "target_node e \<in> set r"
      by (simp add: edges_valid_def list_all_iff)
    then obtain j where j: "j < length r" "r ! j = target_node e"
      by (auto simp: in_set_conv_nth)
    from greedy_precedes [OF g e j] obtain i where "i < j" "r ! i = source_node e" by blast
    with j p show "p \<in> before" by (auto simp: before_def)
  qed
  have "trans before"
  proof (rule transI)
    fix a b c assume "(a, b) \<in> before" "(b, c) \<in> before"
    then obtain i j j' k where 1: "i < j" "j < length r" "r ! i = a" "r ! j = b"
      and 2: "j' < k" "k < length r" "r ! j' = b" "r ! k = c"
      by (auto simp: before_def)
    from 1 2 have "j' < length r" "r ! j = r ! j'" by simp_all
    with 1(2) dist have "j = j'" by (simp add: nth_eq_iff_index_eq)
    with 1 2 have "i < k" by simp
    with 1 2 show "(a, c) \<in> before" by (auto simp: before_def)
  qed
  then have "before\<^sup>+ = before" by (rule trancl_id)
  with trancl_mono [OF cyc sub] have "(v, v) \<in> before" by simp
  then obtain i j where "i < j" "j < length r" "r ! i = r ! j"
    by (auto simp: before_def)
  with dist show False by (simp add: nth_eq_iff_index_eq)
qed

lemma ready_cong:
  assumes "set (node_ids w') = set (node_ids w)" and "set (edges w') = set (edges w)"
  shows "ready w' done = ready w done"
  using assms by (simp add: ready_def remaining_zero_iff)

lemma greedy_unique:
  assumes g: "greedy w r" and g': "greedy w' r'"
    and av: "\<And>done. ready w' done = ready w done"
    and len: "length r = length r'"
  shows "r = r'"
proof -
  have "n \<le> length r \<Longrightarrow> take n r = take n r'" for n
  proof (induction n)
    case 0
    then show ?case by simp
  next
    case (Suc n)
    then have n: "n < length r" "n < length r'" and eq: "take n r = take n r'"
      using len by simp_all
    from g n(1) have 1: "r ! n \<in> ready w (take n r)" "\<forall>v\<in>ready w (take n r). r ! n \<le> v"
      by (simp_all add: greedy_def)
    from g' n(2) eq av have 2: "r' ! n \<in> ready w (take n r)"
      "\<forall>v\<in>ready w (take n r). r' ! n \<le> v"
      by (simp_all add: greedy_def)
    from 1 2 have "r ! n = r' ! n" by (simp add: order_antisym)
    with eq n show ?case by (simp add: take_Suc_conv_app_nth)
  qed
  from this [of "length r"] len show ?thesis by simp
qed

lemma edges_valid_cong:
  assumes "set (node_ids w') = set (node_ids w)" and "set (edges w') = set (edges w)"
  shows "edges_valid w' = edges_valid w"
  using assms by (simp add: edges_valid_def list_all_iff)

lemma edge_rel_cong: "set (edges w') = set (edges w) \<Longrightarrow> edge_rel w' = edge_rel w"
  by (simp add: edge_rel_def)

lemma acyclic_order:
  assumes "distinct (node_ids w)" and "edges_valid w" and "acyclic (edge_rel w)"
  shows "\<exists>r. get_topological_order w = Inr r \<and> greedy w r \<and> set r = set (node_ids w)"
proof -
  from get_topological_order_greedy [OF assms(2)] obtain r where
    g: "greedy w r" and e: "ready w r = {}"
    and t: "get_topological_order w =
         (if length r \<noteq> length (nodes w) then Inl (ValueError cycle_message) else Inr r)"
    by blast
  from greedy_complete [OF assms(2,3) g e] have s: "set r = set (node_ids w)" .
  from greedy_distinct [OF g] have "length r = card (set r)" by (simp add: distinct_card)
  also from s assms(1) have "\<dots> = length (node_ids w)" by (simp add: distinct_card)
  finally have "length r = length (nodes w)" by (simp add: node_ids_def)
  with t g s show ?thesis by simp
qed

lemma example_distinct: "distinct (node_ids example_workflow)"
  by (simp add: node_ids_def example_workflow_def example_nodes_def)

lemma example_edges_valid: "edges_valid example_workflow"
  by (simp add: edges_valid_def node_ids_def example_workflow_def example_nodes_def)

lemma example_acyclic: "acyclic (edge_rel example_workflow)"
proof (rule acyclicI_order [where f = example_rank])
  fix a b assume "(a, b) \<in> edge_rel example_workflow"
  then show "example_rank b < example_rank a"
    by (auto simp: edge_rel_def example_workflow_def example_rank_def)
qed

lemma example_order:
  "get_topological_order example_workflow
     = Inr [''generate_embedding'', ''vector_search'', ''enrich_results'',
            ''summarize_findings'', ''display_results'']"
  by code_simp

lemma cyclic_order:
  assumes "edges_valid w" and "\<not> acyclic (edge_rel w)"
  shows "get_topological_order w = Inl (ValueError cycle_message)"
proof -
  from assms(2) obtain v where cyc: "(v, v) \<in> (edge_rel w)\<^sup>+"
    by (auto simp: acyclic_def)
  from get_topological_order_greedy [OF assms(1)] obtain r where
    g: "greedy w r"
    and t: "get_topological_order w =
         (if length r \<noteq> length (nodes w) then Inl (ValueError cycle_message) else Inr r)"
    by blast
  from greedy_cyclic [OF assms(1) cyc g] greedy_subset [OF g]
  have "set r \<subset> set (node_ids w)" by blast
  then have "card (set r) < card (set (node_ids w))"
    by (simp add: psubset_card_mono)
  also have "\<dots> \<le> length (node_ids w)" by (rule card_length)
  finally have "length r < length (nodes w)"
    using greedy_distinct [OF g] by (simp add: distinct_card node_ids_def)
  with t show ?thesis by simp
qed

lemma cyclic_edges_valid: "edges_valid (workflow cyclic_skill)"
  by (simp add: edges_valid_def node_ids_def cyclic_skill_def cyclic_workflow_def)

lemma cyclic_not_acyclic: "\<not> acyclic (edge_rel (workflow cyclic_skill))"
proof -
  have "(''fetch'', ''review'') \<in> edge_rel (workflow cyclic_skill)"
    and "(''review'', ''fetch'') \<in> edge_rel (workflow cyclic_skill)"
    by (simp_all add: edge_rel_def cyclic_skill_def cyclic_workflow_def)
  then have "(''fetch'', ''fetch'') \<in> (edge_rel (workflow cyclic_skill))\<^sup>+"
    by (rule trancl.intros(2) [OF trancl.intros(1)])
  then show ?thesis by (auto simp: acyclic_def)
qed

lemma validate_dangling:
  assumes "\<not> edges_valid (workflow s)"
  shows "\<exists>k. validate iter s = Inl (KeyError k)"
proof -
  from get_topological_order_dangling [OF assms] obtain k
    where "get_topological_order (workflow s) = Inl (KeyError k)" by blast
  then show ?thesis by (simp add: validate_def)
qed

lemma dangling_order:
  "get_topological_order (workflow dangling_skill) = Inl (KeyError ''ghost'')"
  by code_simp

lemma dangling_structural:
  "structural_errors (workflow dangling_skill) = [NonExistentSource ''ghost'']"
  by code_simp

subsection \<open>Scopes and reports\<close>

lemma order_success:
  assumes "get_topological_order w = Inr r"
  shows "edges_valid w" and "greedy w r" and "set r = set (node_ids w)"
    and "distinct (node_ids w)"
proof -
  show v: "edges_valid w"
  proof (rule ccontr)
    assume "\<not> edges_valid w"
    from get_topological_order_dangling [OF this] assms show False by auto
  qed
  from get_topological_order_greedy [OF v] obtain r' where
    g: "greedy w r'"
    and t: "get_topological_order w =
         (if length r' \<noteq> length (nodes w) then Inl (ValueError cycle_message) else Inr r')"
    by blast
  from t assms have eq: "r' = r" and len: "length r = length (nodes w)"
    by (auto split: if_splits)
  from g eq show g: "greedy w r" by simp
  have "length (node_ids w) = card (set r)"
    using len greedy_distinct [OF g] by (simp add: distinct_card node_ids_def)
  also have "\<dots> \<le> card (set (node_ids w))"
    using greedy_subset [OF g] by (simp add: card_mono)
  finally have c: "length (node_ids w) \<le> card (set (node_ids w))" .
  with card_length [of "node_ids w"] have "card (set (node_ids w)) = length (node_ids w)"
    by simp
  then show d: "distinct (node_ids w)" by (rule card_distinct)
  have "card (set r) = length r"
    using greedy_distinct [OF g] by (simp add: distinct_card)
  moreover have "card (set (node_ids w)) = length (node_ids w)"
    using d by (simp add: distinct_card)
  ultimately have "card (set r) = card (set (node_ids w))"
    using len by (simp add: node_ids_def)
  with greedy_subset [OF g] show "set r = set (node_ids w)"
    by (simp add: card_subset_eq)
qed

lemma map_of_fold_nodes_other:
  "k \<notin> node_id ` set ns \<Longrightarrow>
   map_of (fold (\<lambda>n d. AList.update (node_id n) n d) ns d0) k = map_of d0 k"
  by (induction ns arbitrary: d0) (auto simp: update_conv')

lemma map_of_fold_nodes_key:
  "map_of (fold (\<lambda>n d. AList.update (node_id n) n d) ns d0) k = None
     \<longleftrightarrow> k \<notin> node_id ` set ns \<and> map_of d0 k = None"
  by (induction ns arbitrary: d0) (auto simp: update_conv')

lemma map_of_fold_nodes_distinct:
  "distinct (map node_id ns) \<Longrightarrow> n \<in> set ns \<Longrightarrow>
   map_of (fold (\<lambda>n d. AList.update (node_id n) n d) ns d0) (node_id n) = Some n"
proof (induction ns arbitrary: d0)
  case Nil
  then show ?case by simp
next
  case (Cons m ms)
  show ?case
  proof (cases "n \<in> set ms")
    case True
    with Cons show ?thesis by simp
  next
    case False
    with Cons.prems have "n = m" and "node_id m \<notin> node_id ` set ms" by auto
    then show ?thesis by (simp add: map_of_fold_nodes_other update_conv')
  qed
qed

lemma nodes_dict_None: "map_of (nodes_dict w) k = None \<longleftrightarrow> k \<notin> set (node_ids w)"
  by (simp add: nodes_dict_def node_ids_def map_of_fold_nodes_key)

lemma nodes_dict_Some:
  "distinct (node_ids w) \<Longrightarrow> n \<in> set (nodes w) \<Longrightarrow>
   map_of (nodes_dict w) (node_id n) = Some n"
  by (simp add: nodes_dict_def node_ids_def map_of_fold_nodes_distinct)

lemma sweep_scopes:
  assumes "distinct order" and "\<forall>nid\<in>set order. map_of (nodes_dict w) nid \<noteq> None"
  shows "\<exists>ao'. sweep (nodes_dict w) order avail ao = Inr ao'
     \<and> (\<forall>i<length order.
           ao' (order ! i) = Some (avail \<union> (\<Union>nid\<in>set (take i order). outputs_of w nid)))
     \<and> (\<forall>k. k \<notin> set order \<longrightarrow> ao' k = ao k)"
  using assms
proof (induction order arbitrary: avail ao)
  case Nil
  then show ?case by simp
next
  case (Cons nid rest)
  from Cons.prems obtain n where n: "map_of (nodes_dict w) nid = Some n" by auto
  then have out: "output_names nid n = outputs_of w nid" by (simp add: outputs_of_def)
  from Cons.prems have "distinct rest" "\<forall>x\<in>set rest. map_of (nodes_dict w) x \<noteq> None"
    by simp_all
  from Cons.IH [OF this, of "avail \<union> outputs_of w nid" "ao(nid \<mapsto> avail)"]
  obtain ao' where
    s: "sweep (nodes_dict w) rest (avail \<union> outputs_of w nid) (ao(nid \<mapsto> avail)) = Inr ao'"
    and a: "\<forall>i<length rest. ao' (rest ! i)
         = Some (avail \<union> outputs_of w nid \<union> (\<Union>x\<in>set (take i rest). outputs_of w x))"
    and b: "\<forall>k. k \<notin> set rest \<longrightarrow> ao' k = (ao(nid \<mapsto> avail)) k"
    by blast
  have 1: "sweep (nodes_dict w) (nid # rest) avail ao = Inr ao'"
    using n out s by simp
  have 2: "\<forall>i<length (nid # rest). ao' ((nid # rest) ! i)
      = Some (avail \<union> (\<Union>x\<in>set (take i (nid # rest)). outputs_of w x))"
  proof (intro allI impI)
    fix i assume i: "i < length (nid # rest)"
    show "ao' ((nid # rest) ! i)
      = Some (avail \<union> (\<Union>x\<in>set (take i (nid # rest)). outputs_of w x))"
    proof (cases i)
      case 0
      with b Cons.prems(1) show ?thesis by simp
    next
      case (Suc i')
      with i a have "ao' (rest ! i')
         = Some (avail \<union> outputs_of w nid \<union> (\<Union>x\<in>set (take i' rest). outputs_of w x))"
        by simp
      with Suc show ?thesis by (simp add: Un_assoc)
    qed
  qed
  have 3: "\<forall>k. k \<notin> set (nid # rest) \<longrightarrow> ao' k = ao k"
    using b by simp
  from 1 2 3 show ?case by blast
qed

lemma build_outputs_map_scopes:
  assumes "get_topological_order (workflow s) = Inr order"
  shows "\<exists>scopes. build_outputs_map s Map.empty = Inr scopes
     \<and> dom scopes = set order
     \<and> (\<forall>i<length order. scopes (order ! i)
           = Some (set (map param_name (parameters s))
                    \<union> (\<Union>nid\<in>set (take i order). outputs_of (workflow s) nid)))"
proof -
  note ok = order_success [OF assms]
  have d: "distinct order" using ok(2) by (rule greedy_distinct)
  have "\<forall>nid\<in>set order. map_of (nodes_dict (workflow s)) nid \<noteq> None"
    using ok(3) by (simp add: nodes_dict_None)
  from sweep_scopes [OF d this, of "set (map param_name (parameters s))" Map.empty]
  obtain ao' where
    sw: "sweep (nodes_dict (workflow s)) order (set (map param_name (parameters s))) Map.empty
          = Inr ao'"
    and a: "\<forall>i<length order. ao' (order ! i)
         = Some (set (map param_name (parameters s))
                  \<union> (\<Union>nid\<in>set (take i order). outputs_of (workflow s) nid))"
    and b: "\<forall>k. k \<notin> set order \<longrightarrow> ao' k = None"
    by auto
  have "dom ao' = set order"
  proof (intro set_eqI iffI)
    fix k assume "k \<in> dom ao'"
    with b show "k \<in> set order" by auto
  next
    fix k assume "k \<in> set order"
    then obtain i where "i < length order" "order ! i = k" by (auto simp: in_set_conv_nth)
    with a show "k \<in> dom ao'" by auto
  qed
  with sw a assms show ?thesis by (simp add: build_outputs_map_def)
qed

subsection \<open>Names, placeholders and resolution\<close>

lemma split_no_sep: "sep \<notin> set s \<Longrightarrow> split sep s = [s]"
  by (induction s) auto

lemma split_not_Nil: "split sep s \<noteq> []"
  by (induction s) (auto split: list.splits)

lemma split_sep: "sep \<notin> set v \<Longrightarrow> split sep (v @ sep # rest) = v # split sep rest"
  by (induction v) auto

lemma join_Cons: "ps \<noteq> [] \<Longrightarrow> join sep (p # ps) = p @ sep @ join sep ps"
  by (cases ps) simp_all

lemma join_split: "join [sep] (split sep s) = s"
proof (induction s)
  case Nil
  then show ?case by simp
next
  case (Cons c cs)
  show ?case
  proof (cases "c = sep")
    case True
    with Cons show ?thesis by (simp add: join_Cons split_not_Nil)
  next
    case False
    obtain p ps where sp: "split sep cs = p # ps"
      using split_not_Nil [of sep cs] by (cases "split sep cs") auto
    with Cons have "join [sep] (p # ps) = cs" by simp
    then have "join [sep] ((c # p) # ps) = c # cs" by (cases ps) auto
    with False sp show ?thesis by simp
  qed
qed

lemma hd_split: "hd (split sep s) = takeWhile (\<lambda>c. c \<noteq> sep) s"
  by (induction s) (auto simp: split_not_Nil split: list.splits)

lemma infer_prefix:
  assumes "map_of transforms verb = Some past" and "CHR ''_'' \<notin> set verb"
  shows "infer_output_name (verb @ ''_'' @ rest) = past @ ''_'' @ rest"
proof -
  have "split CHR ''_'' (verb @ ''_'' @ rest) = verb # split CHR ''_'' rest"
    using split_sep [OF assms(2), of rest] by simp
  moreover have "join ''_'' (split CHR ''_'' rest) = rest" by (rule join_split)
  ultimately show ?thesis
    using assms(1) split_not_Nil [of "CHR ''_''" rest] by (simp add: infer_output_name_def)
qed

lemma infer_single: "CHR ''_'' \<notin> set nid \<Longrightarrow> infer_output_name nid = nid"
  by (simp add: infer_output_name_def split_no_sep)

lemma infer_unknown:
  assumes "map_of transforms (takeWhile (\<lambda>c. c \<noteq> CHR ''_'') nid) = None"
  shows "infer_output_name nid = nid"
  using assms by (simp add: infer_output_name_def hd_split Let_def)

lemma search_leaves:
  "search_dict_for_variables obj vs = vs \<union> (\<Union>t\<in>set (string_leaves obj). set (findall t))"
  "search_values kvs vs = vs \<union> (\<Union>t\<in>set (value_leaves kvs). set (findall t))"
  "search_items items vs = vs \<union> (\<Union>t\<in>set (item_leaves items). set (findall t))"
  by (induction obj vs and kvs vs and items vs
      rule: search_dict_for_variables_search_values_search_items.induct) auto

lemma extract_variables_leaves:
  "extract_variables n = (\<Union>t\<in>set (string_leaves (PDict (model_dump (config n)))). set (findall t))"
  by (simp only: extract_variables_def search_leaves) simp

lemma finite_extract_variables: "finite (extract_variables n)"
  by (simp only: extract_variables_leaves) simp

lemma filter_scope_errors:
  assumes "distinct xs"
  shows "filter (is_scope_error nid var) (map (\<lambda>v. UndefinedVariable nid' v names) (filter P xs))
     = (if nid' = nid \<and> var \<in> set xs \<and> P var then [UndefinedVariable nid var names] else [])"
  using assms by (induction xs) (auto simp: is_scope_error_def)

lemma check_references_errors:
  assumes "distinct order" and "\<forall>nid\<in>set order. map_of nd nid \<noteq> None"
    and "\<forall>S. finite S \<longrightarrow> set (iter S) = S \<and> distinct (iter S)"
  shows "\<exists>errs. check_references iter nd ao order = Inr errs
     \<and> (\<forall>nid var. filter (is_scope_error nid var) errs =
          (if nid \<in> set order then
             (case map_of nd nid of
                None \<Rightarrow> []
              | Some n \<Rightarrow>
                  (let scope = (case ao nid of Some a \<Rightarrow> a | None \<Rightarrow> {})
                   in if var \<in> extract_variables n \<and> var \<notin> scope
                      then [UndefinedVariable nid var (sorted_list_of_set scope)] else []))
           else []))"
  using assms(1,2)
proof (induction order)
  case Nil
  then show ?case by simp
next
  case (Cons x rest)
  from Cons.prems obtain n where n: "map_of nd x = Some n" by auto
  from Cons.prems have x: "x \<notin> set rest" by simp
  define scope where "scope = (case ao x of Some a \<Rightarrow> a | None \<Rightarrow> {})"
  define block where "block = map (\<lambda>var. UndefinedVariable x var (sorted_list_of_set scope))
       (filter (\<lambda>var. var \<notin> scope) (iter (extract_variables n)))"
  from Cons.prems have "distinct rest" "\<forall>nid\<in>set rest. map_of nd nid \<noteq> None" by simp_all
  from Cons.IH [OF this] obtain later where
    l: "check_references iter nd ao rest = Inr later"
    and f: "\<forall>nid var. filter (is_scope_error nid var) later =
          (if nid \<in> set rest then
             (case map_of nd nid of
                None \<Rightarrow> []
              | Some n \<Rightarrow>
                  (let scope = (case ao nid of Some a \<Rightarrow> a | None \<Rightarrow> {})
                   in if var \<in> extract_variables n \<and> var \<notin> scope
                      then [UndefinedVariable nid var (sorted_list_of_set scope)] else []))
           else [])"
    by blast
  have 1: "check_references iter nd ao (x # rest) = Inr (block @ later)"
    using n l by (simp add: block_def scope_def Let_def)
  from assms(3) finite_extract_variables [of n]
  have it: "set (iter (extract_variables n)) = extract_variables n"
    "distinct (iter (extract_variables n))" by simp_all
  have b: "filter (is_scope_error nid var) block =
      (if x = nid \<and> var \<in> extract_variables n \<and> var \<notin> scope
       then [UndefinedVariable nid var (sorted_list_of_set scope)] else [])" for nid var
    unfolding block_def using filter_scope_errors [OF it(2), of nid var x] it(1) by simp
  have 2: "filter (is_scope_error nid var) (block @ later) =
          (if nid \<in> set (x # rest) then
             (case map_of nd nid of
                None \<Rightarrow> []
              | Some n \<Rightarrow>
                  (let scope = (case ao nid of Some a \<Rightarrow> a | None \<Rightarrow> {})
                   in if var \<in> extract_variables n \<and> var \<notin> scope
                      then [UndefinedVariable nid var (sorted_list_of_set scope)] else []))
           else [])" for nid var
  proof (cases "nid = x")
    case True
    with x f have "filter (is_scope_error nid var) later = []" by simp
    with True b [of nid var] n show ?thesis by (simp add: scope_def Let_def)
  next
    case False
    with b [of nid var] have "filter (is_scope_error nid var) block = []" by simp
    with False f show ?thesis by simp
  qed
  from 1 2 show ?case by blast
qed

lemma edge_errors_no_scope_error:
  "e \<in> set (edge_errors w x) \<Longrightarrow> \<not> is_scope_error nid var e"
  by (auto simp: edge_errors_def is_scope_error_def split: if_splits)

lemma node_config_errors_no_scope_error:
  "e \<in> set (node_config_errors n) \<Longrightarrow> \<not> is_scope_error nid var e"
  by (cases "node_type n") (auto simp: is_scope_error_def split: if_splits)

lemma no_scope_error_structural:
  "filter (is_scope_error nid var) (structural_errors w) = []"
proof -
  have "\<not> is_scope_error nid var e" if "e \<in> set (structural_errors w)" for e
  proof -
    from that consider ds where "e = DuplicateNodeIds ds"
      | x where "x \<in> set (edges w)" "e \<in> set (edge_errors w x)"
      by (auto simp: structural_errors_def Let_def split: if_splits)
    then show ?thesis
    proof cases
      case 1
      then show ?thesis by (simp add: is_scope_error_def)
    next
      case 2
      then show ?thesis by (simp add: edge_errors_no_scope_error)
    qed
  qed
  then show ?thesis by (simp add: filter_empty_conv)
qed

lemma no_scope_error_config:
  "filter (is_scope_error nid var) (validate_node_configs w) = []"
proof -
  have "\<not> is_scope_error nid var e" if "e \<in> set (validate_node_configs w)" for e
    using that
    by (auto simp: validate_node_configs_def simp del: node_config_errors.simps
        dest: node_config_errors_no_scope_error)
  then show ?thesis by (simp add: filter_empty_conv)
qed

lemma undefined_var_validate:
  "validate sorted_list_of_set undefined_var_skill
     = Inr (False, [UndefinedVariable ''report'' ''undefined_var'' [''topic'']])"
  by code_simp

lemma cyclic_skill_order:
  "get_topological_order (workflow cyclic_skill) = Inl (ValueError cycle_message)"
  using cyclic_order [OF cyclic_edges_valid cyclic_not_acyclic] .

lemma not_word_brace: "\<not> is_word_char CHR ''}''"
  by (simp add: is_word_char_def)

lemma match_token_token:
  assumes "is_name name"
  shows "match_token (token name @ rest) = Some (name, rest)"
proof -
  from assms have w: "\<forall>c\<in>set name. is_word_char c" and ne: "name \<noteq> []"
    by (simp_all add: is_name_def list_all_iff)
  have "takeWhile is_word_char (name @ ''}}'' @ rest) = name"
    using w not_word_brace by (simp add: takeWhile_append2)
  moreover have "dropWhile is_word_char (name @ ''}}'' @ rest) = ''}}'' @ rest"
    using w not_word_brace by (simp add: dropWhile_append2)
  ultimately show ?thesis
    using ne by (simp add: match_token_def token_def)
qed








lemma findall_token:
  assumes "is_name name"
  shows "findall (token name @ rest) = name # findall rest"
proof -
  obtain c cs where cs: "token name @ rest = c # cs" by (simp add: token_def)
  from match_token_token [OF assms, of rest] cs
  have "match_token (c # cs) = Some (name, rest)" by simp
  then have "findall (c # cs) = name # findall rest" by simp
  with cs show ?thesis by simp
qed








lemma update_fresh: "k \<notin> fst ` set al \<Longrightarrow> AList.update k v al = al @ [(k, v)]"
  by (induction al) auto

lemma resolve_entries_list_all2:
  assumes "distinct (map fst ps)" and "fst ` set ps \<inter> fst ` set acc = {}"
  shows "resolve_entries ps state acc = Inr res
     \<longleftrightarrow> (\<exists>rs. res = acc @ rs
           \<and> list_all2 (\<lambda>(k, v) (k', r). k' = k \<and> resolve_value v state = Inr r) ps rs)"
  using assms
proof (induction ps arbitrary: acc)
  case Nil
  then show ?case by auto
next
  case (Cons kv rest)
  obtain key v where kv: "kv = (key, v)" by (cases kv)
  show ?case
  proof (cases "resolve_value v state")
    case (Inl e)
    with kv show ?thesis by (auto simp: list_all2_Cons1)
  next
    case (Inr r)
    from Cons.prems kv have fresh: "key \<notin> fst ` set acc" by auto
    from Cons.prems kv have d: "distinct (map fst rest)"
      and disj: "fst ` set rest \<inter> fst ` set (acc @ [(key, r)]) = {}"
      by auto
    have "resolve_entries (kv # rest) state acc
        = resolve_entries rest state (acc @ [(key, r)])"
      using kv Inr by (simp add: update_fresh [OF fresh])
    also have "\<dots> = Inr res \<longleftrightarrow> (\<exists>rs. res = (acc @ [(key, r)]) @ rs
           \<and> list_all2 (\<lambda>(k, v) (k', r). k' = k \<and> resolve_value v state = Inr r) rest rs)"
      by (rule Cons.IH [OF d disj])
    also have "\<dots> \<longleftrightarrow> (\<exists>rs. res = acc @ rs
           \<and> list_all2 (\<lambda>(k, v) (k', r). k' = k \<and> resolve_value v state = Inr r) (kv # rest) rs)"
      using kv Inr by (auto simp: list_all2_Cons1)
    finally show ?thesis .
  qed
qed

lemma resolve_params_list_all2:
  assumes "distinct (map fst params)"
  shows "resolve_params params state = Inr resolved
     \<longleftrightarrow> list_all2 (\<lambda>(k, v) (k', r). k' = k \<and> resolve_value v state = Inr r) params resolved"
  using resolve_entries_list_all2 [OF assms, of "[]" state resolved]
  by (simp add: resolve_params_def)








lemma resolve_params_lookup:
  assumes d: "distinct (map fst params)"
    and r: "resolve_params params state = Inr resolved"
    and m: "(k, v) \<in> set params"
  shows "\<exists>r. resolve_value v state = Inr r \<and> map_of resolved k = Some r"
proof -
  let ?P = "\<lambda>(k, v) (k', r). k' = k \<and> resolve_value v state = Inr r"
  from r have l: "list_all2 ?P params resolved"
    by (simp add: resolve_params_list_all2 [OF d])
  then have len: "length params = length resolved" by (rule list_all2_lengthD)
  have nth: "?P (params ! i) (resolved ! i)" if "i < length params" for i
    using l that by (simp add: list_all2_conv_all_nth)
  have keys: "map fst resolved = map fst params"
  proof (rule nth_equalityI)
    show "length (map fst resolved) = length (map fst params)" using len by simp
  next
    fix i assume "i < length (map fst resolved)"
    with len nth [of i] show "map fst resolved ! i = map fst params ! i"
      by (auto split: prod.splits)
  qed
  from m obtain i where i: "i < length params" "params ! i = (k, v)"
    by (auto simp: in_set_conv_nth)
  with nth [of i] obtain r where ri: "resolved ! i = (k, r)" "resolve_value v state = Inr r"
    by (auto split: prod.splits)
  from i(1) len ri(1) have "(k, r) \<in> set resolved" by (metis nth_mem)
  with keys d have "map_of resolved k = Some r" by simp
  with ri(2) show ?thesis by blast
qed

lemma resolve_value_other:
  assumes "\<forall>s. v \<noteq> PStr s" and "\<forall>items. v \<noteq> PList items"
  shows "resolve_value v state = Inr v"
  using assms by (cases v) (simp_all add: resolve_value_def)

lemma search_nested_token:
  assumes "is_name name"
  shows "name \<in> search_dict_for_variables (PDict ((k, PDict ((k', PStr (token name)) # d)) # kvs)) vs"
  using findall_token [OF assms, of "[]"] by (simp add: search_leaves)

lemma extract_nested_token:
  assumes "is_name name"
    and "function_params (config n) = Some [(k, PDict [(k', PStr (token name))])]"
  shows "name \<in> extract_variables n"
  using findall_token [OF assms(1), of "[]"] assms(2)
  by (simp add: extract_variables_leaves model_dump_def opt_def)

lemma replace_Nil [simp]: "replace old new [] = []"
  by (simp add: replace_def)

lemma replace_Cons [simp]:
  "replace old new (c # cs) = (if c = old then new else [c]) @ replace old new cs"
  by (simp add: replace_def)

lemma replace_append [simp]:
  "replace old new (a @ b) = replace old new a @ replace old new b"
  by (simp add: replace_def)

lemma safe_str_Nil [simp]: "safe_str [] = []"
  by (simp add: safe_str_def)

lemma safe_str_Cons: "safe_str (c # cs) = escape_char c @ safe_str cs"
  by (simp add: safe_str_def escape_char_def backslash_def dquote_def newline_def
      creturn_def tab_def)

lemma safe_str_escape_char: "safe_str t = concat (map escape_char t)"
  by (induction t) (simp_all add: safe_str_Cons)

lemma safe_str_append: "safe_str (a @ b) = safe_str a @ safe_str b"
  by (simp add: safe_str_escape_char)





















lemma template_replacer_unbound:
  assumes "map_of state name = None \<or> map_of state name = Some PNone"
  shows "template_replacer state name = Inl (VariableNotFound name (map fst state))"
  using assms by (auto simp: template_replacer_def)




lemma example_skill_order:
  "get_topological_order (workflow example_skill)
     = Inr [''generate_embedding'', ''vector_search'', ''enrich_results'',
            ''summarize_findings'', ''display_results'']"
  by (simp add: example_skill_def example_order)

lemma undefined_var_graph:
  "distinct (node_ids (workflow undefined_var_skill))"
  "edges_valid (workflow undefined_var_skill)"
  "acyclic (edge_rel (workflow undefined_var_skill))"
  by (simp_all add: undefined_var_skill_def node_ids_def edges_valid_def edge_rel_def
      acyclic_def)

lemma sorted_list_of_set_iter:
  "\<forall>S :: string set. finite S \<longrightarrow> set (sorted_list_of_set S) = S \<and> distinct (sorted_list_of_set S)"
  by simp




lemma json_safe_Nil [simp]: "json_safe []"
  by (simp add: json_safe_def)















section \<open>The claims\<close>

text \<open>
  A workflow graph of the data model has unique node ids (\<open>distinct (node_ids w)\<close>) and
  edges whose two endpoints name nodes (\<open>edges_valid w\<close>); it is acyclic when its edge
  relation is. \<open>ready w done\<close> is the set of nodes not yet placed whose remaining
  in-degree is zero once the nodes of \<open>done\<close> are placed.
\<close>

text \<open>
  C1. For every acyclic workflow graph the topological ordering is a function of the graph
  alone (it reads the nodes and edges and updates nothing), it succeeds, and its sequence
  holds every node exactly once, places the source of every edge before its target, and
  at each position holds the smallest id, in the order of strings, among the nodes that
  are ready after the positions before it. That description leaves one sequence only, so
  any other listing of the same nodes and the same edges is ordered the same way.
\<close>

theorem topological_order_deterministic:
  assumes "distinct (node_ids w)" and "edges_valid w" and "acyclic (edge_rel w)"
  shows "\<exists>order. get_topological_order w = Inr order
     \<and> distinct order \<and> set order = set (node_ids w) \<and> length order = length (nodes w)
     \<and> (\<forall>e\<in>set (edges w). \<exists>i j. i < j \<and> j < length order
            \<and> order ! i = source_node e \<and> order ! j = target_node e)
     \<and> (\<forall>i<length order. order ! i \<in> ready w (take i order)
            \<and> (\<forall>v\<in>ready w (take i order). order ! i \<le> v))
     \<and> (\<forall>w'. distinct (node_ids w') \<and> set (node_ids w') = set (node_ids w)
              \<and> set (edges w') = set (edges w)
            \<longrightarrow> get_topological_order w' = Inr order)"
proof -
  from acyclic_order [OF assms] obtain r where t: "get_topological_order w = Inr r"
    and g: "greedy w r" and s: "set r = set (node_ids w)"
    by blast
  note d = greedy_distinct [OF g]
  have len: "length r = length (nodes w)"
  proof -
    from d have "length r = card (set r)" by (simp add: distinct_card)
    also from s assms(1) have "\<dots> = length (node_ids w)" by (simp add: distinct_card)
    finally show ?thesis by (simp add: node_ids_def)
  qed
  have prec: "\<forall>e\<in>set (edges w). \<exists>i j. i < j \<and> j < length r
            \<and> r ! i = source_node e \<and> r ! j = target_node e"
  proof
    fix e assume e: "e \<in> set (edges w)"
    with assms(2) s have "target_node e \<in> set r"
      by (simp add: edges_valid_def list_all_iff)
    then obtain j where j: "j < length r" "r ! j = target_node e"
      by (auto simp: in_set_conv_nth)
    from greedy_precedes [OF g e j] j
    show "\<exists>i j. i < j \<and> j < length r \<and> r ! i = source_node e \<and> r ! j = target_node e"
      by blast
  qed
  have perm: "\<forall>w'. distinct (node_ids w') \<and> set (node_ids w') = set (node_ids w)
              \<and> set (edges w') = set (edges w)
            \<longrightarrow> get_topological_order w' = Inr r"
  proof (intro allI impI)
    fix w'
    assume a: "distinct (node_ids w') \<and> set (node_ids w') = set (node_ids w)
              \<and> set (edges w') = set (edges w)"
    then have "edges_valid w' = edges_valid w" and "edge_rel w' = edge_rel w"
      by (simp_all add: edges_valid_cong [of w' w] edge_rel_cong [of w' w])
    with assms(2,3) have v': "edges_valid w'" and c': "acyclic (edge_rel w')"
      by simp_all
    from a acyclic_order [OF _ v' c'] obtain r' where t': "get_topological_order w' = Inr r'"
      and g': "greedy w' r'" and s': "set r' = set (node_ids w')"
      by blast
    have "length r' = card (set r')" using greedy_distinct [OF g'] by (simp add: distinct_card)
    also have "\<dots> = card (set r)" using s s' a by simp
    also have "\<dots> = length r" using d by (simp add: distinct_card)
    finally have "length r = length r'" by simp
    from a have "ready w' ds = ready w ds" for ds
      by (intro ready_cong) simp_all
    from greedy_unique [OF g g' this \<open>length r = length r'\<close>] have "r = r'" .
    with t' show "get_topological_order w' = Inr r" by simp
  qed
  from g have gr: "\<forall>i<length r. r ! i \<in> ready w (take i r)
            \<and> (\<forall>v\<in>ready w (take i r). r ! i \<le> v)"
    by (simp add: greedy_def)
  show ?thesis
    by (intro exI [of _ r] conjI) (fact t d s len prec gr perm)+
qed

theorem topological_order_deterministic_witness:
  "distinct (node_ids example_workflow) \<and> edges_valid example_workflow
   \<and> acyclic (edge_rel example_workflow)
   \<and> (\<exists>order. get_topological_order example_workflow = Inr order
     \<and> distinct order \<and> set order = set (node_ids example_workflow)
     \<and> length order = length (nodes example_workflow)
     \<and> (\<forall>e\<in>set (edges example_workflow). \<exists>i j. i < j \<and> j < length order
            \<and> order ! i = source_node e \<and> order ! j = target_node e)
     \<and> (\<forall>i<length order. order ! i \<in> ready example_workflow (take i order)
            \<and> (\<forall>v\<in>ready example_workflow (take i order). order ! i \<le> v))
     \<and> (\<forall>w'. distinct (node_ids w') \<and> set (node_ids w') = set (node_ids example_workflow)
              \<and> set (edges w') = set (edges example_workflow)
            \<longrightarrow> get_topological_order w' = Inr order))"
  using topological_order_deterministic
          [OF example_distinct example_edges_valid example_acyclic]
        example_distinct example_edges_valid example_acyclic
  by (intro conjI)

text \<open>
  C2. For every workflow graph whose edges contain a cycle the ordering fails and returns
  no partial order; with every edge endpoint naming a node, as the data model has it, the
  failure is the cycle error raised when fewer nodes were ordered than the graph has.
  \<open>_build_outputs_map\<close> then returns with the map of scopes as it was: empty, after
  the constructor.
\<close>

theorem cycle_fails_without_scopes:
  assumes "\<not> acyclic (edge_rel (workflow s))"
  shows "(\<exists>e. get_topological_order (workflow s) = Inl e)
     \<and> (edges_valid (workflow s)
          \<longrightarrow> get_topological_order (workflow s) = Inl (ValueError cycle_message))
     \<and> build_outputs_map s Map.empty = Inr Map.empty
     \<and> build_outputs_map s available_outputs = Inr available_outputs"
proof -
  have fails: "\<exists>e. get_topological_order (workflow s) = Inl e"
  proof (cases "edges_valid (workflow s)")
    case True
    from cyclic_order [OF True assms] show ?thesis by blast
  next
    case False
    from get_topological_order_dangling [OF False] show ?thesis by blast
  qed
  moreover have "edges_valid (workflow s)
      \<longrightarrow> get_topological_order (workflow s) = Inl (ValueError cycle_message)"
    using cyclic_order [OF _ assms] by blast
  moreover from fails have "build_outputs_map s ao = Inr ao" for ao
    by (auto simp: build_outputs_map_def)
  ultimately show ?thesis by blast
qed

theorem cycle_fails_without_scopes_witness:
  "\<not> acyclic (edge_rel (workflow cyclic_skill)) \<and> edges_valid (workflow cyclic_skill)
   \<and> get_topological_order (workflow cyclic_skill) = Inl (ValueError cycle_message)
   \<and> build_outputs_map cyclic_skill Map.empty = Inr Map.empty"
  using cycle_fails_without_scopes [OF cyclic_not_acyclic] cyclic_not_acyclic
        cyclic_edges_valid
  by blast

text \<open>
  C3. The claim is that \<open>validate\<close> never raises, and that with an edge whose endpoint
  names no node it returns a report with one structural error for each such endpoint. The
  code records the endpoint and then orders the graph with the edge still in it: for
  \<open>dangling_skill\<close> the lookup \<open>adj_list['ghost']\<close> raises \<open>KeyError\<close>, which
  \<open>except ValueError\<close> does not catch, and \<open>validate\<close> returns no report.
\<close>

theorem validate_raises_on_dangling_edge:
  "structural_errors (workflow dangling_skill) = [NonExistentSource ''ghost'']
   \<and> validate iter dangling_skill = Inl (KeyError ''ghost'')"
  by (simp add: validate_def dangling_order dangling_structural)

text \<open>
  C4. The scope map comes from one sweep along the execution order: the scope recorded for
  the node at a position is the set of the declared parameter names together with the
  output names, declared or inferred, of the nodes at the positions before it, and of
  no others: what the node itself adds is no part of its scope. The scopes therefore grow
  along the order: a scope at a position is contained in each scope at a later position.
\<close>

theorem scopes_forward_sweep:
  assumes "get_topological_order (workflow s) = Inr order"
  shows "\<exists>scopes. build_outputs_map s Map.empty = Inr scopes
     \<and> dom scopes = set order
     \<and> (\<forall>i<length order. scopes (order ! i)
           = Some (set (map param_name (parameters s))
                    \<union> (\<Union>nid\<in>set (take i order). outputs_of (workflow s) nid)))
     \<and> (\<forall>n\<in>set (nodes (workflow s)).
           outputs_of (workflow s) (node_id n) = output_names (node_id n) n)
     \<and> (\<forall>i j a b. i \<le> j \<and> j < length order
           \<and> scopes (order ! i) = Some a \<and> scopes (order ! j) = Some b \<longrightarrow> a \<subseteq> b)"
proof -
  from build_outputs_map_scopes [OF assms] obtain scopes where
    1: "build_outputs_map s Map.empty = Inr scopes"
    and 2: "dom scopes = set order"
    and 3: "\<forall>i<length order. scopes (order ! i)
           = Some (set (map param_name (parameters s))
                    \<union> (\<Union>nid\<in>set (take i order). outputs_of (workflow s) nid))"
    by blast
  have 4: "\<forall>n\<in>set (nodes (workflow s)).
      outputs_of (workflow s) (node_id n) = output_names (node_id n) n"
    using order_success(4) [OF assms] by (simp add: outputs_of_def nodes_dict_Some)
  have 5: "\<forall>i j a b. i \<le> j \<and> j < length order
           \<and> scopes (order ! i) = Some a \<and> scopes (order ! j) = Some b \<longrightarrow> a \<subseteq> b"
  proof (intro allI impI)
    fix i j a b
    assume h: "i \<le> j \<and> j < length order
           \<and> scopes (order ! i) = Some a \<and> scopes (order ! j) = Some b"
    then have "set (take i order) \<subseteq> set (take j order)"
      by (simp add: set_take_subset_set_take)
    moreover from h 3 have "a = set (map param_name (parameters s))
        \<union> (\<Union>nid\<in>set (take i order). outputs_of (workflow s) nid)"
      and "b = set (map param_name (parameters s))
        \<union> (\<Union>nid\<in>set (take j order). outputs_of (workflow s) nid)"
      by auto
    ultimately show "a \<subseteq> b" by blast
  qed
  show ?thesis
    by (intro exI [of _ scopes] conjI) (fact 1 2 3 4 5)+
qed

theorem scopes_forward_sweep_witness:
  "get_topological_order (workflow example_skill)
     = Inr [''generate_embedding'', ''vector_search'', ''enrich_results'',
            ''summarize_findings'', ''display_results'']
   \<and> (\<exists>scopes. build_outputs_map example_skill Map.empty = Inr scopes
     \<and> scopes ''generate_embedding'' = Some {''workorder_description'', ''limit''}
     \<and> scopes ''summarize_findings''
         = Some {''workorder_description'', ''limit'', ''embedding'', ''similar_workorders'',
                 ''enriched_results''})"
proof -
  let ?order = "[''generate_embedding'', ''vector_search'', ''enrich_results'',
            ''summarize_findings'', ''display_results'']"
  from scopes_forward_sweep [OF example_skill_order] obtain scopes where
    1: "build_outputs_map example_skill Map.empty = Inr scopes"
    and 3: "\<forall>i<length ?order. scopes (?order ! i)
           = Some (set (map param_name (parameters example_skill))
                    \<union> (\<Union>nid\<in>set (take i ?order). outputs_of (workflow example_skill) nid))"
    by blast
  have o: "outputs_of (workflow example_skill) ''generate_embedding'' = {''embedding''}"
    "outputs_of (workflow example_skill) ''vector_search'' = {''similar_workorders''}"
    "outputs_of (workflow example_skill) ''enrich_results'' = {''enriched_results''}"
    by code_simp+
  have p: "set (map param_name (parameters example_skill)) = {''workorder_description'', ''limit''}"
    by (simp add: example_skill_def)
  from 3 [rule_format, of 0] p
  have a: "scopes ''generate_embedding'' = Some {''workorder_description'', ''limit''}"
    by simp
  from 3 [rule_format, of 3] p o
  have b: "scopes ''summarize_findings''
         = Some {''workorder_description'', ''limit'', ''embedding'', ''similar_workorders'',
                 ''enriched_results''}"
    by (simp add: numeral_3_eq_3 insert_commute Un_commute)
  from example_skill_order 1 a b show ?thesis by blast
qed

text \<open>
  C5. The inferred output name of a node id: when the first of its underscore-delimited
  tokens is \<open>enrich\<close>, \<open>summarize\<close>, \<open>process\<close> or \<open>transform\<close> and another token
  follows, that token is replaced by \<open>enriched\<close>, \<open>summarized\<close>, \<open>processed\<close> or
  \<open>transformed\<close> and the rest of the id is kept as it is; an id of a single token, and an
  id whose first token is none of the four, is returned itself.
\<close>

theorem infer_output_name_table:
  "infer_output_name (''enrich_'' @ rest) = ''enriched_'' @ rest
   \<and> infer_output_name (''summarize_'' @ rest) = ''summarized_'' @ rest
   \<and> infer_output_name (''process_'' @ rest) = ''processed_'' @ rest
   \<and> infer_output_name (''transform_'' @ rest) = ''transformed_'' @ rest
   \<and> (CHR ''_'' \<notin> set nid \<longrightarrow> infer_output_name nid = nid)
   \<and> (takeWhile (\<lambda>c. c \<noteq> CHR ''_'') nid' \<notin> {''enrich'', ''summarize'', ''process'', ''transform''}
        \<longrightarrow> infer_output_name nid' = nid')"
proof -
  have 1: "infer_output_name (''enrich_'' @ rest) = ''enriched_'' @ rest"
    using infer_prefix [of "''enrich''" "''enriched''" rest] by (simp add: transforms_def)
  have 2: "infer_output_name (''summarize_'' @ rest) = ''summarized_'' @ rest"
    using infer_prefix [of "''summarize''" "''summarized''" rest] by (simp add: transforms_def)
  have 3: "infer_output_name (''process_'' @ rest) = ''processed_'' @ rest"
    using infer_prefix [of "''process''" "''processed''" rest] by (simp add: transforms_def)
  have 4: "infer_output_name (''transform_'' @ rest) = ''transformed_'' @ rest"
    using infer_prefix [of "''transform''" "''transformed''" rest] by (simp add: transforms_def)
  have 5: "CHR ''_'' \<notin> set nid \<longrightarrow> infer_output_name nid = nid"
    by (simp add: infer_single)
  have 6: "takeWhile (\<lambda>c. c \<noteq> CHR ''_'') nid' \<notin> {''enrich'', ''summarize'', ''process'', ''transform''}
        \<longrightarrow> infer_output_name nid' = nid'"
  proof
    assume "takeWhile (\<lambda>c. c \<noteq> CHR ''_'') nid' \<notin> {''enrich'', ''summarize'', ''process'', ''transform''}"
    then have "map_of transforms (takeWhile (\<lambda>c. c \<noteq> CHR ''_'') nid') = None"
      by (simp add: transforms_def)
    then show "infer_output_name nid' = nid'" by (rule infer_unknown)
  qed
  from 1 2 3 4 5 6 show ?thesis by (intro conjI)
qed

theorem infer_output_name_table_witness:
  "infer_output_name ''enrich_results'' = ''enriched_results''
   \<and> infer_output_name ''summarize_findings'' = ''summarized_findings''
   \<and> infer_output_name ''process_all_items'' = ''processed_all_items''
   \<and> infer_output_name ''transform_'' = ''transformed_''
   \<and> infer_output_name ''enrich'' = ''enrich''
   \<and> infer_output_name ''vector_search'' = ''vector_search''
   \<and> infer_output_name ''_enrich_results'' = ''_enrich_results''"
proof -
  note t = infer_output_name_table
  from t [of "''results''"] have 1: "infer_output_name ''enrich_results'' = ''enriched_results''"
    by simp
  from t [of "''findings''"]
  have 2: "infer_output_name ''summarize_findings'' = ''summarized_findings''" by simp
  from t [of "''all_items''"]
  have 3: "infer_output_name ''process_all_items'' = ''processed_all_items''" by simp
  from t [of "''''"] have 4: "infer_output_name ''transform_'' = ''transformed_''" by simp
  from t [of _ "''enrich''"] have 5: "infer_output_name ''enrich'' = ''enrich''" by simp
  from t [of _ _ "''vector_search''"]
  have 6: "infer_output_name ''vector_search'' = ''vector_search''" by simp
  from t [of _ _ "''_enrich_results''"]
  have 7: "infer_output_name ''_enrich_results'' = ''_enrich_results''" by simp
  from 1 2 3 4 5 6 7 show ?thesis by (intro conjI)
qed

text \<open>
  C6. For every acyclic graph of the data model and every node of it: the variables of the
  node are the names of the placeholders in the string leaves of its configuration,
  through nested dictionaries and lists; a variable that is in no scope of the node has
  exactly one scope error in the report, which holds the node's id, the variable and the
  sorted list of the scope; a variable in the scope has none (and neither has a name that
  is no variable of the node). This holds in whichever order the set of variables is
  visited.
\<close>

theorem scope_errors_exact:
  assumes "distinct (node_ids (workflow s))" and "edges_valid (workflow s)"
    and "acyclic (edge_rel (workflow s))"
    and "\<forall>S. finite S \<longrightarrow> set (iter S) = S \<and> distinct (iter S)"
  shows "\<exists>scopes errors. build_outputs_map s Map.empty = Inr scopes
     \<and> validate iter s = Inr (errors = [], errors)
     \<and> (\<forall>n\<in>set (nodes (workflow s)). \<exists>scope. scopes (node_id n) = Some scope
          \<and> (\<forall>var. filter (is_scope_error (node_id n) var) errors =
                (if var \<in> extract_variables n \<and> var \<notin> scope
                 then [UndefinedVariable (node_id n) var (sorted_list_of_set scope)]
                 else [])))
     \<and> (\<forall>n. extract_variables n =
            (\<Union>t\<in>set (string_leaves (PDict (model_dump (config n)))). set (findall t)))"
proof -
  let ?w = "workflow s"
  from acyclic_order [OF assms(1-3)] obtain r where
    t: "get_topological_order ?w = Inr r" and g: "greedy ?w r"
    and sr: "set r = set (node_ids ?w)"
    by blast
  from build_outputs_map_scopes [OF t] obtain scopes where
    b: "build_outputs_map s Map.empty = Inr scopes" and dom: "dom scopes = set r"
    by blast
  have known: "\<forall>nid\<in>set r. map_of (nodes_dict ?w) nid \<noteq> None"
    using sr by (simp add: nodes_dict_None)
  from check_references_errors [OF greedy_distinct [OF g] known assms(4), of scopes]
  obtain errs where
    c: "check_references iter (nodes_dict ?w) scopes r = Inr errs"
    and f: "\<forall>nid var. filter (is_scope_error nid var) errs =
          (if nid \<in> set r then
             (case map_of (nodes_dict ?w) nid of
                None \<Rightarrow> []
              | Some n \<Rightarrow>
                  (let scope = (case scopes nid of Some a \<Rightarrow> a | None \<Rightarrow> {})
                   in if var \<in> extract_variables n \<and> var \<notin> scope
                      then [UndefinedVariable nid var (sorted_list_of_set scope)] else []))
           else [])"
    by blast
  define errors where
    "errors = structural_errors ?w @ errs @ validate_node_configs ?w"
  have v: "validate iter s = Inr (errors = [], errors)"
    using t b c by (simp add: validate_def validate_variable_references_def errors_def Let_def)
  have flt: "filter (is_scope_error nid var) errors = filter (is_scope_error nid var) errs"
    for nid var
    by (simp add: errors_def no_scope_error_structural no_scope_error_config)
  have per_node: "\<forall>n\<in>set (nodes ?w). \<exists>scope. scopes (node_id n) = Some scope
          \<and> (\<forall>var. filter (is_scope_error (node_id n) var) errors =
                (if var \<in> extract_variables n \<and> var \<notin> scope
                 then [UndefinedVariable (node_id n) var (sorted_list_of_set scope)]
                 else []))"
  proof
    fix n assume n: "n \<in> set (nodes ?w)"
    then have inr: "node_id n \<in> set r" using sr by (simp add: node_ids_def)
    with dom obtain scope where sc: "scopes (node_id n) = Some scope" by auto
    from nodes_dict_Some [OF assms(1) n]
    have look: "map_of (nodes_dict ?w) (node_id n) = Some n" .
    have "\<forall>var. filter (is_scope_error (node_id n) var) errors =
                (if var \<in> extract_variables n \<and> var \<notin> scope
                 then [UndefinedVariable (node_id n) var (sorted_list_of_set scope)]
                 else [])"
      using f [rule_format, of "node_id n"] inr look sc by (simp add: flt)
    with sc show "\<exists>scope. scopes (node_id n) = Some scope
          \<and> (\<forall>var. filter (is_scope_error (node_id n) var) errors =
                (if var \<in> extract_variables n \<and> var \<notin> scope
                 then [UndefinedVariable (node_id n) var (sorted_list_of_set scope)]
                 else []))"
      by blast
  qed
  have leaves: "\<forall>n. extract_variables n =
            (\<Union>t\<in>set (string_leaves (PDict (model_dump (config n)))). set (findall t))"
    by (simp only: extract_variables_leaves) simp
  show ?thesis
    by (intro exI [of _ scopes] exI [of _ errors] conjI) (fact b v per_node leaves)+
qed

theorem scope_errors_exact_witness:
  "distinct (node_ids (workflow undefined_var_skill))
   \<and> edges_valid (workflow undefined_var_skill)
   \<and> acyclic (edge_rel (workflow undefined_var_skill))
   \<and> validate sorted_list_of_set undefined_var_skill
       = Inr (False, [UndefinedVariable ''report'' ''undefined_var'' [''topic'']])
   \<and> (\<exists>scopes errors. build_outputs_map undefined_var_skill Map.empty = Inr scopes
     \<and> validate sorted_list_of_set undefined_var_skill = Inr (errors = [], errors)
     \<and> (\<forall>n\<in>set (nodes (workflow undefined_var_skill)).
          \<exists>scope. scopes (node_id n) = Some scope
          \<and> (\<forall>var. filter (is_scope_error (node_id n) var) errors =
                (if var \<in> extract_variables n \<and> var \<notin> scope
                 then [UndefinedVariable (node_id n) var (sorted_list_of_set scope)]
                 else [])))
     \<and> (\<forall>n. extract_variables n =
            (\<Union>t\<in>set (string_leaves (PDict (model_dump (config n)))). set (findall t))))"
  using scope_errors_exact [OF undefined_var_graph sorted_list_of_set_iter]
        undefined_var_graph undefined_var_validate
  by (intro conjI)

text \<open>
  C7, as amended. For every graph in which the ordering fails with a cycle error, the run
  records the cycle error in the report and skips the check of the variable scopes, which
  adds the one entry that variables cannot be validated and no scope error. The check of
  the required fields still runs on every node: the report is the structural errors, the
  two cycle entries and the config errors, in that order, and the graph is not valid.
\<close>

theorem cycle_report:
  assumes "get_topological_order (workflow s) = Inl (ValueError msg)"
  shows "\<exists>errors. validate iter s = Inr (False, errors)
     \<and> errors = structural_errors (workflow s)
                @ [WorkflowContainsCycles msg, CannotValidateVariables msg]
                @ validate_node_configs (workflow s)
     \<and> (\<forall>nid var. filter (is_scope_error nid var) errors = [])"
proof -
  let ?errors = "structural_errors (workflow s)
                @ [WorkflowContainsCycles msg, CannotValidateVariables msg]
                @ validate_node_configs (workflow s)"
  have "validate iter s = Inr (False, ?errors)"
    using assms
    by (simp add: validate_def build_outputs_map_def validate_variable_references_def Let_def)
  moreover have "\<forall>nid var. filter (is_scope_error nid var) ?errors = []"
    by (simp add: no_scope_error_structural no_scope_error_config is_scope_error_def)
  ultimately show ?thesis by blast
qed

theorem cycle_report_witness:
  "get_topological_order (workflow cyclic_skill) = Inl (ValueError cycle_message)
   \<and> (\<exists>errors. validate sorted_list_of_set cyclic_skill = Inr (False, errors)
     \<and> errors = structural_errors (workflow cyclic_skill)
                @ [WorkflowContainsCycles cycle_message, CannotValidateVariables cycle_message]
                @ validate_node_configs (workflow cyclic_skill)
     \<and> (\<forall>nid var. filter (is_scope_error nid var) errors = []))"
  using cycle_report [OF cyclic_skill_order, of sorted_list_of_set] cyclic_skill_order
  by (intro conjI)

text \<open>
  The claim as it is written fails on \<open>cyclic_skill\<close>: the ordering fails with the cycle
  error, and the report still holds the config error of the node \<open>fetch\<close>.
\<close>

theorem cycle_skips_config_check_counterexample:
  "get_topological_order (workflow cyclic_skill) = Inl (ValueError cycle_message)
   \<and> validate sorted_list_of_set cyclic_skill
       = Inr (False, [WorkflowContainsCycles cycle_message,
                      CannotValidateVariables cycle_message,
                      MissingFunctionName ''fetch''])
   \<and> map (render sorted_list_of_set)
         [WorkflowContainsCycles cycle_message, CannotValidateVariables cycle_message,
          MissingFunctionName ''fetch'']
       = [''Workflow contains cycles: Cycle detected in workflow graph'',
          ''Cannot validate variables due to cyclic workflow: Cycle detected in workflow graph'',
          ''Node '' @ quoted ''fetch'' @ '' (function_call) missing function_name'']"
proof -
  have "validate sorted_list_of_set cyclic_skill
       = Inr (False, [WorkflowContainsCycles cycle_message,
                      CannotValidateVariables cycle_message,
                      MissingFunctionName ''fetch''])"
    by code_simp
  moreover have "map (render sorted_list_of_set)
         [WorkflowContainsCycles cycle_message, CannotValidateVariables cycle_message,
          MissingFunctionName ''fetch'']
       = [''Workflow contains cycles: Cycle detected in workflow graph'',
          ''Cannot validate variables due to cyclic workflow: Cycle detected in workflow graph'',
          ''Node '' @ quoted ''fetch'' @ '' (function_call) missing function_name'']"
    by code_simp
  ultimately show ?thesis using cyclic_skill_order by simp
qed




text \<open>
  C10. Structured mode looks at strings and lists only: a parameter value of any other
  kind, a nested dictionary among them, is stored as it is, whatever the state holds, so
  a placeholder inside a nested dictionary is never resolved and never fails. The
  validator does reach it: the name of such a placeholder is among the variables it
  extracts from the node and checks.
\<close>

theorem nested_mapping_unresolved:
  "((\<forall>s. v \<noteq> PStr s) \<and> (\<forall>items. v \<noteq> PList items) \<longrightarrow> resolve_value v state = Inr v)
   \<and> (distinct (map fst params) \<and> resolve_params params state = Inr resolved
        \<and> (k, v) \<in> set params \<and> (\<forall>s. v \<noteq> PStr s) \<and> (\<forall>items. v \<noteq> PList items)
        \<longrightarrow> map_of resolved k = Some v)
   \<and> resolve_params [(k, PDict [(k', PStr (token name))])] state
       = Inr [(k, PDict [(k', PStr (token name))])]
   \<and> (is_name name \<and> function_params (config n) = Some [(k, PDict [(k', PStr (token name))])]
        \<longrightarrow> name \<in> extract_variables n)"
proof (intro conjI impI)
  assume "(\<forall>s. v \<noteq> PStr s) \<and> (\<forall>items. v \<noteq> PList items)"
  then show "resolve_value v state = Inr v" by (simp add: resolve_value_other)
next
  assume a: "distinct (map fst params) \<and> resolve_params params state = Inr resolved
        \<and> (k, v) \<in> set params \<and> (\<forall>s. v \<noteq> PStr s) \<and> (\<forall>items. v \<noteq> PList items)"
  then have "resolve_value v state = Inr v" by (simp add: resolve_value_other)
  moreover from a resolve_params_lookup [of params state resolved k v]
  obtain r where "resolve_value v state = Inr r" "map_of resolved k = Some r" by blast
  ultimately show "map_of resolved k = Some v" by simp
next
  show "resolve_params [(k, PDict [(k', PStr (token name))])] state
       = Inr [(k, PDict [(k', PStr (token name))])]"
    by (simp add: resolve_params_def resolve_value_def)
next
  assume "is_name name \<and> function_params (config n) = Some [(k, PDict [(k', PStr (token name))])]"
  then show "name \<in> extract_variables n" by (simp add: extract_nested_token)
qed

theorem nested_mapping_unresolved_witness:
  "is_name ''similar_workorders''
   \<and> resolve_value (PDict [(''ids'', PStr ''{{similar_workorders}}'')]) []
       = Inr (PDict [(''ids'', PStr ''{{similar_workorders}}'')])
   \<and> resolve_params nested_params [] = Inr nested_params
   \<and> map_of nested_params ''filter'' = Some (PDict [(''ids'', PStr ''{{similar_workorders}}'')])
   \<and> ''similar_workorders'' \<in> extract_variables nested_node"
proof -
  have n: "is_name ''similar_workorders''"
    by (simp add: is_name_def is_word_char_def)
  have tk: "token ''similar_workorders'' = ''{{similar_workorders}}''"
    by (simp add: token_def)
  note t = nested_mapping_unresolved
    [where name = "''similar_workorders''" and k = "''filter''" and k' = "''ids''"
       and state = "[]"]
  from t [where v = "PDict [(''ids'', PStr ''{{similar_workorders}}'')]"]
  have 1: "resolve_value (PDict [(''ids'', PStr ''{{similar_workorders}}'')]) []
       = Inr (PDict [(''ids'', PStr ''{{similar_workorders}}'')])"
    by simp
  from t have 2: "resolve_params nested_params [] = Inr nested_params"
    by (simp add: nested_params_def tk)
  from t [where params = nested_params and resolved = nested_params
            and v = "PDict [(''ids'', PStr ''{{similar_workorders}}'')]"] 2
  have 3: "map_of nested_params ''filter''
      = Some (PDict [(''ids'', PStr ''{{similar_workorders}}'')])"
    by (simp add: nested_params_def)
  from t [where n = nested_node] n
  have 4: "''similar_workorders'' \<in> extract_variables nested_node"
    by (simp add: nested_node_def nested_params_def no_config_def tk)
  from n 1 2 3 4 show ?thesis by (intro conjI)
qed




end
